theory Spec2Isabelle
  imports Main "HOL-Library.Monad_Syntax" "HOL-Library.Multiset"
begin

section \<open>Memory model\<close>

text \<open>
  The package keeps its data in heap objects that point at each other: the elements of
  the doubly linked ring of \<^verbatim>\<open>list.go\<close>, the list header with its sentinel, and the
  cache structure of \<^verbatim>\<open>lru.go\<close>. The embedding uses a store split by field: every
  field of \<^verbatim>\<open>Element\<close> is a function from addresses to the field's content.

  \<^item> A pointer is an \<open>addr option\<close>; \<open>None\<close> is Go's \<^verbatim>\<open>nil\<close>.
  \<^item> Every operation returns an \<open>option\<close>; \<open>None\<close> is a run that does not return
    normally: a panic on a nil dereference, or (only for the traversals) a loop
    that never ends.
  \<^item> The sentinel \<^verbatim>\<open>root\<close> is the first field of \<^verbatim>\<open>List\<close>, so the list at address
    \<open>l\<close> has its sentinel element at the element address \<open>l\<close>: \<^verbatim>\<open>&l.root\<close> is \<open>l\<close>.
  \<^item> \<^verbatim>\<open>Element.Value\<close> points at an \<^verbatim>\<open>expirableEntry\<close> that no other element shares
    (the cache creates one entry per element), so the entry is stored with its
    element: \<open>e_Value h e = None\<close> is a nil \<^verbatim>\<open>Value\<close>.
  \<^item> \<^verbatim>\<open>time.Time\<close> and \<^verbatim>\<open>time.Duration\<close> are integers (nanoseconds); \<^verbatim>\<open>t.Add(d)\<close> is
    \<open>t + d\<close> and \<^verbatim>\<open>t.After(u)\<close> is \<open>u < t\<close>. The lengths are unbounded integers: a
    64-bit counter does not wrap before the store is exhausted.
  \<^item> \<open>free h\<close> is the next unused address; \<^verbatim>\<open>new\<close> and \<^verbatim>\<open>&T{...}\<close> take it and zero
    the fields of the new object.
\<close>

type_synonym addr = nat

section \<open>Keys and maps\<close>

text \<open>
  The key type \<^verbatim>\<open>KT\<close> is any \<^verbatim>\<open>comparable\<close> type (\<^verbatim>\<open>type GKT comparable\<close>). A value of
  such a type either equals itself under Go's \<^verbatim>\<open>==\<close>, or it does not: a \<^verbatim>\<open>float64\<close> NaN,
  or a struct or array that holds one. \<open>Key x\<close> is a key of the first kind, and two such
  keys are equal in Go exactly when the \<open>x\<close> are equal; \<open>NaN\<close> is a key of the second
  kind, which Go finds equal to no key, itself included. One \<open>NaN\<close> stands for all of
  them: no comparison tells two of them apart, and the cache does nothing with a key but
  compare it, store it and pass it on. \<open>key_eq\<close> is Go's \<^verbatim>\<open>==\<close> on \<^verbatim>\<open>KT\<close>.

  A key of an interface type that holds a value of a type without \<^verbatim>\<open>==\<close> (a slice, say)
  is left out: the first access to the map panics on it, before the cache has changed.
\<close>

datatype 'k KT = Key 'k | NaN

fun key_eq :: "'k KT \<Rightarrow> 'k KT \<Rightarrow> bool" where
  "key_eq (Key x) (Key y) = (x = y)"
| "key_eq _ _ = False"

text \<open>
  A Go map is the list of its entries, in no order that a program can rely on. The map
  compares keys with \<^verbatim>\<open>==\<close>: \<^verbatim>\<open>m[k]\<close> finds the entry whose key equals \<open>k\<close>, \<^verbatim>\<open>m[k] = a\<close>
  overwrites that entry and adds a new one when there is none, \<^verbatim>\<open>delete(m, k)\<close> removes
  it, and \<^verbatim>\<open>len(m)\<close> is the number of entries. So an entry with the key \<open>NaN\<close> is never
  found and never deleted, every assignment to \<open>NaN\<close> adds a further entry, and \<^verbatim>\<open>len\<close>
  and \<^verbatim>\<open>range\<close> see them all.
\<close>

definition map_lookup :: "('k KT \<times> 'a) list \<Rightarrow> 'k KT \<Rightarrow> 'a option" where
  "map_lookup m k = map_option snd (find (\<lambda>e. key_eq (fst e) k) m)"

definition map_assign :: "('k KT \<times> 'a) list \<Rightarrow> 'k KT \<Rightarrow> 'a \<Rightarrow> ('k KT \<times> 'a) list" where
  "map_assign m k a =
     (if \<exists>e \<in> set m. key_eq (fst e) k
      then map (\<lambda>e. if key_eq (fst e) k then (fst e, a) else e) m
      else m @ [(k, a)])"

definition map_delete :: "('k KT \<times> 'a) list \<Rightarrow> 'k KT \<Rightarrow> ('k KT \<times> 'a) list" where
  "map_delete m k = filter (\<lambda>e. \<not> key_eq (fst e) k) m"

section \<open>The store\<close>

record ('k, 'v) expirableEntry =
  key :: "'k KT"
  val :: 'v
  expiresAt :: int

record ('k, 'v) heap =
  e_next :: "addr \<Rightarrow> addr option"
  e_prev :: "addr \<Rightarrow> addr option"
  e_list :: "addr \<Rightarrow> addr option"
  e_Value :: "addr \<Rightarrow> ('k, 'v) expirableEntry option"
  l_len :: "addr \<Rightarrow> int"
  free :: addr

section \<open>The list (list.go)\<close>

text \<open>
  All of \<^verbatim>\<open>list.go\<close> but \<^verbatim>\<open>PushBackList\<close> and \<^verbatim>\<open>PushFrontList\<close>, which the cache does not
  call. \<^verbatim>\<open>Next\<close> and \<^verbatim>\<open>Prev\<close> compare the link with the address of the sentinel of the
  list the element names, and dereference the element only.
\<close>

definition Next :: "addr \<Rightarrow> ('k, 'v, 'x) heap_scheme \<Rightarrow> addr option" where
  "Next e h =
     (case e_list h e of
        None \<Rightarrow> None
      | Some l \<Rightarrow> if e_next h e \<noteq> Some l then e_next h e else None)"

definition Prev :: "addr \<Rightarrow> ('k, 'v, 'x) heap_scheme \<Rightarrow> addr option" where
  "Prev e h =
     (case e_list h e of
        None \<Rightarrow> None
      | Some l \<Rightarrow> if e_prev h e \<noteq> Some l then e_prev h e else None)"

definition Init :: "addr \<Rightarrow> ('k, 'v, 'x) heap_scheme \<Rightarrow> ('k, 'v, 'x) heap_scheme" where
  "Init l h =
     (let h = h\<lparr>e_next := (e_next h)(l := Some l)\<rparr>;
          h = h\<lparr>e_prev := (e_prev h)(l := Some l)\<rparr>
      in h\<lparr>l_len := (l_len h)(l := 0)\<rparr>)"

text \<open>\<^verbatim>\<open>new(List[KT, VT])\<close>: a zeroed list header at the next unused address.\<close>

definition new_List :: "('k, 'v, 'x) heap_scheme \<Rightarrow> addr \<times> ('k, 'v, 'x) heap_scheme" where
  "new_List h =
     (let l = free h
      in (l, h\<lparr>e_next := (e_next h)(l := None), e_prev := (e_prev h)(l := None),
               e_list := (e_list h)(l := None), e_Value := (e_Value h)(l := None),
               l_len := (l_len h)(l := 0), free := Suc l\<rparr>))"

definition NewList :: "('k, 'v, 'x) heap_scheme \<Rightarrow> addr \<times> ('k, 'v, 'x) heap_scheme" where
  "NewList h = (let (l, h) = new_List h in (l, Init l h))"

definition List_Len :: "addr \<Rightarrow> ('k, 'v, 'x) heap_scheme \<Rightarrow> int" where
  "List_Len l h = l_len h l"

definition Front :: "addr \<Rightarrow> ('k, 'v, 'x) heap_scheme \<Rightarrow> addr option" where
  "Front l h = (if l_len h l = 0 then None else e_next h l)"

definition Back :: "addr \<Rightarrow> ('k, 'v, 'x) heap_scheme \<Rightarrow> addr option" where
  "Back l h = (if l_len h l = 0 then None else e_prev h l)"

definition lazyInit :: "addr \<Rightarrow> ('k, 'v, 'x) heap_scheme \<Rightarrow> ('k, 'v, 'x) heap_scheme" where
  "lazyInit l h = (if e_next h l = None then Init l h else h)"

text \<open>
  \<^verbatim>\<open>insert\<close> and \<^verbatim>\<open>move\<close> take the position \<^verbatim>\<open>at\<close> as a pointer that they dereference;
  the callers below read that pointer from a field and panic here when it is nil,
  which is where the source panics too (at \<^verbatim>\<open>at.next\<close>, before anything is returned).
  Each statement reads the store the previous one left.
\<close>

definition insert_at ::
  "addr \<Rightarrow> addr \<Rightarrow> addr \<Rightarrow> ('k, 'v, 'x) heap_scheme \<Rightarrow> (addr \<times> ('k, 'v, 'x) heap_scheme) option" where
  "insert_at l e at h = do {
     let h = h\<lparr>e_prev := (e_prev h)(e := Some at)\<rparr>;
     let h = h\<lparr>e_next := (e_next h)(e := e_next h at)\<rparr>;
     p \<leftarrow> e_prev h e;
     let h = h\<lparr>e_next := (e_next h)(p := Some e)\<rparr>;
     n \<leftarrow> e_next h e;
     let h = h\<lparr>e_prev := (e_prev h)(n := Some e)\<rparr>;
     let h = h\<lparr>e_list := (e_list h)(e := Some l)\<rparr>;
     let h = h\<lparr>l_len := (l_len h)(l := l_len h l + 1)\<rparr>;
     Some (e, h)
   }"

text \<open>\<^verbatim>\<open>&Element[KT, VT]{Value: v}\<close>: a new element whose links and list are nil.\<close>

definition new_Element ::
  "('k, 'v) expirableEntry option \<Rightarrow> ('k, 'v, 'x) heap_scheme \<Rightarrow> addr \<times> ('k, 'v, 'x) heap_scheme" where
  "new_Element v h =
     (let e = free h
      in (e, h\<lparr>e_next := (e_next h)(e := None), e_prev := (e_prev h)(e := None),
               e_list := (e_list h)(e := None), e_Value := (e_Value h)(e := v),
               free := Suc e\<rparr>))"

definition insertValue ::
  "addr \<Rightarrow> ('k, 'v) expirableEntry option \<Rightarrow> addr \<Rightarrow> ('k, 'v, 'x) heap_scheme
     \<Rightarrow> (addr \<times> ('k, 'v, 'x) heap_scheme) option" where
  "insertValue l v at h = (let (e, h) = new_Element v h in insert_at l e at h)"

definition remove :: "addr \<Rightarrow> addr \<Rightarrow> ('k, 'v, 'x) heap_scheme \<Rightarrow> ('k, 'v, 'x) heap_scheme option" where
  "remove l e h = do {
     p \<leftarrow> e_prev h e;
     let h = h\<lparr>e_next := (e_next h)(p := e_next h e)\<rparr>;
     n \<leftarrow> e_next h e;
     let h = h\<lparr>e_prev := (e_prev h)(n := e_prev h e)\<rparr>;
     let h = h\<lparr>e_next := (e_next h)(e := None)\<rparr>;
     let h = h\<lparr>e_prev := (e_prev h)(e := None)\<rparr>;
     let h = h\<lparr>e_list := (e_list h)(e := None)\<rparr>;
     Some (h\<lparr>l_len := (l_len h)(l := l_len h l - 1)\<rparr>)
   }"

definition move :: "addr \<Rightarrow> addr \<Rightarrow> addr \<Rightarrow> ('k, 'v, 'x) heap_scheme \<Rightarrow> ('k, 'v, 'x) heap_scheme option" where
  "move l e at h =
     (if e = at then Some h
      else do {
        p \<leftarrow> e_prev h e;
        let h = h\<lparr>e_next := (e_next h)(p := e_next h e)\<rparr>;
        n \<leftarrow> e_next h e;
        let h = h\<lparr>e_prev := (e_prev h)(n := e_prev h e)\<rparr>;
        let h = h\<lparr>e_prev := (e_prev h)(e := Some at)\<rparr>;
        let h = h\<lparr>e_next := (e_next h)(e := e_next h at)\<rparr>;
        p \<leftarrow> e_prev h e;
        let h = h\<lparr>e_next := (e_next h)(p := Some e)\<rparr>;
        n \<leftarrow> e_next h e;
        Some (h\<lparr>e_prev := (e_prev h)(n := Some e)\<rparr>)
      })"

definition List_Remove ::
  "addr \<Rightarrow> addr \<Rightarrow> ('k, 'v, 'x) heap_scheme
     \<Rightarrow> (('k, 'v) expirableEntry option \<times> ('k, 'v, 'x) heap_scheme) option" where
  "List_Remove l e h = do {
     h \<leftarrow> (if e_list h e = Some l then remove l e h else Some h);
     Some (e_Value h e, h)
   }"

definition PushFront ::
  "addr \<Rightarrow> ('k, 'v) expirableEntry option \<Rightarrow> ('k, 'v, 'x) heap_scheme
     \<Rightarrow> (addr \<times> ('k, 'v, 'x) heap_scheme) option" where
  "PushFront l v h = insertValue l v l (lazyInit l h)"

definition PushBack ::
  "addr \<Rightarrow> ('k, 'v) expirableEntry option \<Rightarrow> ('k, 'v, 'x) heap_scheme
     \<Rightarrow> (addr \<times> ('k, 'v, 'x) heap_scheme) option" where
  "PushBack l v h = do {
     let h = lazyInit l h;
     at \<leftarrow> e_prev h l;
     insertValue l v at h
   }"

text \<open>
  \<^verbatim>\<open>InsertBefore\<close> and \<^verbatim>\<open>InsertAfter\<close> return the new element, or nil when the mark is
  not an element of the list.
\<close>

definition InsertBefore ::
  "addr \<Rightarrow> ('k, 'v) expirableEntry option \<Rightarrow> addr \<Rightarrow> ('k, 'v, 'x) heap_scheme
     \<Rightarrow> (addr option \<times> ('k, 'v, 'x) heap_scheme) option" where
  "InsertBefore l v mark h =
     (if e_list h mark \<noteq> Some l then Some (None, h)
      else do {
        at \<leftarrow> e_prev h mark;
        (e, h) \<leftarrow> insertValue l v at h;
        Some (Some e, h)
      })"

definition InsertAfter ::
  "addr \<Rightarrow> ('k, 'v) expirableEntry option \<Rightarrow> addr \<Rightarrow> ('k, 'v, 'x) heap_scheme
     \<Rightarrow> (addr option \<times> ('k, 'v, 'x) heap_scheme) option" where
  "InsertAfter l v mark h =
     (if e_list h mark \<noteq> Some l then Some (None, h)
      else do {
        (e, h) \<leftarrow> insertValue l v mark h;
        Some (Some e, h)
      })"

definition MoveToFront :: "addr \<Rightarrow> addr \<Rightarrow> ('k, 'v, 'x) heap_scheme \<Rightarrow> ('k, 'v, 'x) heap_scheme option" where
  "MoveToFront l e h =
     (if e_list h e \<noteq> Some l \<or> e_next h l = Some e then Some h
      else move l e l h)"

definition MoveToBack :: "addr \<Rightarrow> addr \<Rightarrow> ('k, 'v, 'x) heap_scheme \<Rightarrow> ('k, 'v, 'x) heap_scheme option" where
  "MoveToBack l e h =
     (if e_list h e \<noteq> Some l \<or> e_prev h l = Some e then Some h
      else do { at \<leftarrow> e_prev h l; move l e at h })"

definition MoveBefore ::
  "addr \<Rightarrow> addr \<Rightarrow> addr \<Rightarrow> ('k, 'v, 'x) heap_scheme \<Rightarrow> ('k, 'v, 'x) heap_scheme option" where
  "MoveBefore l e mark h =
     (if e_list h e \<noteq> Some l \<or> e = mark \<or> e_list h mark \<noteq> Some l then Some h
      else do { at \<leftarrow> e_prev h mark; move l e at h })"

definition MoveAfter ::
  "addr \<Rightarrow> addr \<Rightarrow> addr \<Rightarrow> ('k, 'v, 'x) heap_scheme \<Rightarrow> ('k, 'v, 'x) heap_scheme option" where
  "MoveAfter l e mark h =
     (if e_list h e \<noteq> Some l \<or> e = mark \<or> e_list h mark \<noteq> Some l then Some h
      else move l e mark h)"

section \<open>The cache (lru.go)\<close>

text \<open>
  The store, extended by the fields of the one \<^verbatim>\<open>Cache\<close> a run works on and by the
  trace of the calls of its eviction callback:
  \<^item> \<open>c_onEvicted\<close> tells whether \<^verbatim>\<open>onEvicted\<close> is non-nil; a call \<^verbatim>\<open>c.onEvicted(k, v)\<close>
    appends \<open>(k, v)\<close> to \<open>calls\<close>. The callback cannot reach the cache: every public
    method takes the mutex, which is not reentrant.
  \<^item> \<open>c_items\<close> is the map \<^verbatim>\<open>items\<close>, the list of its entries; the values stored in it
    are the non-nil results of \<^verbatim>\<open>PushFront\<close>, so they are addresses.
  \<^item> \<open>c_sweeper\<close> tells whether \<^verbatim>\<open>NewLRU\<close> started the goroutine that calls
    \<^verbatim>\<open>deleteExpired\<close> on every tick. Every method holds the mutex from its first to its
    last statement (\<^verbatim>\<open>Resize\<close> with a non-positive size returns before it), so a run is
    a sequence of whole operations, a tick of the sweeper being one \<^verbatim>\<open>deleteExpired\<close>.
  The channel \<^verbatim>\<open>done\<close> and \<^verbatim>\<open>Close\<close> are left out: they stop the sweeper and touch no
  other field.
\<close>

record ('k, 'v) state = "('k, 'v) heap" +
  c_size :: int
  c_purgeEvery :: int
  c_ttl :: int
  c_onEvicted :: bool
  c_sweeper :: bool
  c_items :: "('k KT \<times> addr) list"
  c_evictList :: addr
  calls :: "('k KT \<times> 'v) list"

text \<open>\<^verbatim>\<open>time.Hour * 24 * 365 * 10\<close> and \<^verbatim>\<open>time.Minute * 5\<close>, in nanoseconds.\<close>

definition noEvictionTTL :: int where
  "noEvictionTTL = 3600000000000 * 24 * 365 * 10"

definition five_minutes :: int where
  "five_minutes = 60000000000 * 5"

definition NewLRU :: "int \<Rightarrow> bool \<Rightarrow> int \<Rightarrow> int \<Rightarrow> ('k, 'v) heap \<Rightarrow> ('k, 'v) state" where
  "NewLRU sz onEvict t purgeEvery h =
     (let sz = (if sz < 0 then 0 else sz);
          t = (if t \<le> 0 then noEvictionTTL else t);
          (l, h) = NewList h;
          sweep = (t \<noteq> noEvictionTTL \<and> (sz > 0 \<or> purgeEvery > 0));
          purgeEvery = (if sweep \<and> purgeEvery \<le> 0 then five_minutes else purgeEvery)
      in \<lparr>e_next = e_next h, e_prev = e_prev h, e_list = e_list h, e_Value = e_Value h,
          l_len = l_len h, free = free h,
          c_size = sz, c_purgeEvery = purgeEvery, c_ttl = t, c_onEvicted = onEvict,
          c_sweeper = sweep, c_items = [], c_evictList = l, calls = []\<rparr>)"

definition removeElement :: "addr \<Rightarrow> ('k, 'v) state \<Rightarrow> ('k, 'v) state option" where
  "removeElement e s = do {
     (_, s) \<leftarrow> List_Remove (c_evictList s) e s;
     kv \<leftarrow> e_Value s e;
     let s = s\<lparr>c_items := map_delete (c_items s) (key kv)\<rparr>;
     Some (if c_onEvicted s then s\<lparr>calls := calls s @ [(key kv, val kv)]\<rparr> else s)
   }"

definition removeOldest :: "('k, 'v) state \<Rightarrow> ('k, 'v) state option" where
  "removeOldest s =
     (case Back (c_evictList s) s of
        Some ent \<Rightarrow> removeElement ent s
      | None \<Rightarrow> Some s)"

text \<open>
  \<^verbatim>\<open>add\<close> reads the clock once: \<open>now\<close> is what \<^verbatim>\<open>time.Now()\<close> returned. \<^verbatim>\<open>len(c.items)\<close> is
  the number of entries of the map.
\<close>

definition add :: "'k KT \<Rightarrow> 'v \<Rightarrow> int \<Rightarrow> int \<Rightarrow> ('k, 'v) state \<Rightarrow> (bool \<times> ('k, 'v) state) option" where
  "add k v t now s =
     (case map_lookup (c_items s) k of
        Some ent \<Rightarrow> do {
          s \<leftarrow> MoveToFront (c_evictList s) ent s;
          en \<leftarrow> e_Value s ent;
          let s = s\<lparr>e_Value := (e_Value s)(ent \<mapsto> en\<lparr>val := v\<rparr>)\<rparr>;
          en \<leftarrow> e_Value s ent;
          let s = s\<lparr>e_Value := (e_Value s)(ent \<mapsto> en\<lparr>expiresAt := now + t\<rparr>)\<rparr>;
          Some (False, s)
        }
      | None \<Rightarrow> do {
          let ent = \<lparr>key = k, val = v, expiresAt = now + t\<rparr>;
          (entry, s) \<leftarrow> PushFront (c_evictList s) (Some ent) s;
          let s = s\<lparr>c_items := map_assign (c_items s) k entry\<rparr>;
          if c_size s > 0 \<and> int (length (c_items s)) > c_size s
          then do { s \<leftarrow> removeOldest s; Some (True, s) }
          else Some (False, s)
        })"

definition Add :: "'k KT \<Rightarrow> 'v \<Rightarrow> int \<Rightarrow> ('k, 'v) state \<Rightarrow> (bool \<times> ('k, 'v) state) option" where
  "Add k v now s = add k v (c_ttl s) now s"

definition AddWithTTL ::
  "'k KT \<Rightarrow> 'v \<Rightarrow> int \<Rightarrow> int \<Rightarrow> ('k, 'v) state \<Rightarrow> (bool \<times> ('k, 'v) state) option" where
  "AddWithTTL k v t now s = add k v t now s"

text \<open>
  A result \<^verbatim>\<open>(VT, bool)\<close> is a \<open>'v option\<close>: \<open>Some v\<close> is \<^verbatim>\<open>(v, true)\<close> and \<open>None\<close> is
  \<^verbatim>\<open>(*new(VT), false)\<close>; likewise for \<^verbatim>\<open>(KT, VT, bool)\<close>.
\<close>

definition Get :: "'k KT \<Rightarrow> int \<Rightarrow> ('k, 'v) state \<Rightarrow> ('v option \<times> ('k, 'v) state) option" where
  "Get k now s =
     (case map_lookup (c_items s) k of
        Some ent \<Rightarrow> do {
          en \<leftarrow> e_Value s ent;
          if expiresAt en < now then Some (None, s)
          else do {
            s \<leftarrow> MoveToFront (c_evictList s) ent s;
            en \<leftarrow> e_Value s ent;
            Some (Some (val en), s)
          }
        }
      | None \<Rightarrow> Some (None, s))"

definition Peek :: "'k KT \<Rightarrow> int \<Rightarrow> ('k, 'v) state \<Rightarrow> ('v option \<times> ('k, 'v) state) option" where
  "Peek k now s =
     (case map_lookup (c_items s) k of
        Some ent \<Rightarrow> do {
          en \<leftarrow> e_Value s ent;
          if expiresAt en < now then Some (None, s)
          else Some (Some (val en), s)
        }
      | None \<Rightarrow> Some (None, s))"

definition GetOldest :: "('k, 'v) state \<Rightarrow> (('k KT \<times> 'v) option \<times> ('k, 'v) state) option" where
  "GetOldest s =
     (case Back (c_evictList s) s of
        Some ent \<Rightarrow> do { kv \<leftarrow> e_Value s ent; Some (Some (key kv, val kv), s) }
      | None \<Rightarrow> Some (None, s))"

definition Contains :: "'k KT \<Rightarrow> ('k, 'v) state \<Rightarrow> bool" where
  "Contains k s = (map_lookup (c_items s) k \<noteq> None)"

definition Remove :: "'k KT \<Rightarrow> ('k, 'v) state \<Rightarrow> (bool \<times> ('k, 'v) state) option" where
  "Remove k s =
     (case map_lookup (c_items s) k of
        Some ent \<Rightarrow> do { s \<leftarrow> removeElement ent s; Some (True, s) }
      | None \<Rightarrow> Some (False, s))"

definition RemoveOldest :: "('k, 'v) state \<Rightarrow> (('k KT \<times> 'v) option \<times> ('k, 'v) state) option" where
  "RemoveOldest s =
     (case Back (c_evictList s) s of
        Some ent \<Rightarrow> do {
          s \<leftarrow> removeElement ent s;
          kv \<leftarrow> e_Value s ent;
          Some (Some (key kv, val kv), s)
        }
      | None \<Rightarrow> Some (None, s))"

text \<open>
  The loop of \<^verbatim>\<open>keys\<close> follows \<^verbatim>\<open>Prev\<close> until it is nil. On a store whose links do not
  lead back to the sentinel it never ends; the result is then \<open>None\<close>.
\<close>

partial_function (option) keys_loop ::
  "addr option \<Rightarrow> 'k KT list \<Rightarrow> ('k, 'v) state \<Rightarrow> 'k KT list option" where
  "keys_loop ent ks s =
     (case ent of
        None \<Rightarrow> Some ks
      | Some e \<Rightarrow>
          (case e_Value s e of
             None \<Rightarrow> None
           | Some kv \<Rightarrow> keys_loop (Prev e s) (ks @ [key kv]) s))"

definition keys :: "('k, 'v) state \<Rightarrow> 'k KT list option" where
  "keys s = keys_loop (Back (c_evictList s) s) [] s"

definition Keys :: "('k, 'v) state \<Rightarrow> 'k KT list option" where
  "Keys s = keys s"

text \<open>
  \<^verbatim>\<open>Purge\<close> ranges over the map, in an order that Go leaves open: \<open>order\<close> is the order
  in which the range yields the entries \<open>(k, v)\<close>. The range yields an entry only while it
  is in the map. \<^verbatim>\<open>v.Value\<close> is read only when the callback is set.
\<close>

fun Purge_loop :: "('k KT \<times> addr) list \<Rightarrow> ('k, 'v) state \<Rightarrow> ('k, 'v) state option" where
  "Purge_loop [] s = Some s"
| "Purge_loop ((k, v) # order) s =
     (if (k, v) \<notin> set (c_items s) then Purge_loop order s
      else do {
          s \<leftarrow> (if c_onEvicted s
                then do { kv \<leftarrow> e_Value s v; Some (s\<lparr>calls := calls s @ [(k, val kv)]\<rparr>) }
                else Some s);
          Purge_loop order (s\<lparr>c_items := map_delete (c_items s) k\<rparr>)
        })"

definition Purge :: "('k KT \<times> addr) list \<Rightarrow> ('k, 'v) state \<Rightarrow> ('k, 'v) state option" where
  "Purge order s = do {
     s \<leftarrow> Purge_loop order s;
     Some (Init (c_evictList s) s)
   }"

text \<open>
  \<^verbatim>\<open>deleteExpired\<close> reads the clock once for every key: \<open>clock i\<close> is what \<^verbatim>\<open>time.Now()\<close>
  returns in the round \<open>i\<close> of the loop. \<^verbatim>\<open>c.items[key]\<close> is nil for a key that the map
  does not find, and reading its \<^verbatim>\<open>Value\<close> panics.
\<close>

fun deleteExpired_loop ::
  "(nat \<Rightarrow> int) \<Rightarrow> nat \<Rightarrow> 'k KT list \<Rightarrow> ('k, 'v) state \<Rightarrow> ('k, 'v) state option" where
  "deleteExpired_loop clock i [] s = Some s"
| "deleteExpired_loop clock i (k # ks) s = do {
     ent \<leftarrow> map_lookup (c_items s) k;
     kv \<leftarrow> e_Value s ent;
     s \<leftarrow> (if expiresAt kv < clock i
           then do { ent \<leftarrow> map_lookup (c_items s) k; removeElement ent s }
           else Some s);
     deleteExpired_loop clock (Suc i) ks s
   }"

definition deleteExpired :: "(nat \<Rightarrow> int) \<Rightarrow> ('k, 'v) state \<Rightarrow> ('k, 'v) state option" where
  "deleteExpired clock s = do {
     ks \<leftarrow> keys s;
     deleteExpired_loop clock 0 ks s
   }"

definition DeleteExpired :: "(nat \<Rightarrow> int) \<Rightarrow> ('k, 'v) state \<Rightarrow> ('k, 'v) state option" where
  "DeleteExpired clock s = deleteExpired clock s"

definition Len :: "('k, 'v) state \<Rightarrow> int" where
  "Len s = List_Len (c_evictList s) s"

text \<open>The loop \<^verbatim>\<open>for i := 0; i < diff; i++ { c.removeOldest() }\<close>.\<close>

fun removeOldest_times :: "nat \<Rightarrow> ('k, 'v) state \<Rightarrow> ('k, 'v) state option" where
  "removeOldest_times 0 s = Some s"
| "removeOldest_times (Suc n) s = do { s \<leftarrow> removeOldest s; removeOldest_times n s }"

definition Resize :: "int \<Rightarrow> ('k, 'v) state \<Rightarrow> (int \<times> ('k, 'v) state) option" where
  "Resize sz s =
     (if sz \<le> 0 then Some (0, s)
      else do {
        let diff = List_Len (c_evictList s) s - sz;
        let diff = (if diff < 0 then 0 else diff);
        s \<leftarrow> removeOldest_times (nat diff) s;
        Some (diff, s\<lparr>c_size := sz\<rparr>)
      })"

section \<open>Runs of the cache\<close>

text \<open>
  A call of a public method, with what the environment chooses for it: the clock
  readings, and for \<^verbatim>\<open>Purge\<close> the order of the range over the map.
\<close>

datatype ('k, 'v) call =
    Call_Add "'k KT" 'v int
  | Call_AddWithTTL "'k KT" 'v int int
  | Call_Get "'k KT" int
  | Call_Peek "'k KT" int
  | Call_GetOldest
  | Call_Contains "'k KT"
  | Call_Remove "'k KT"
  | Call_RemoveOldest
  | Call_Keys
  | Call_Purge "('k KT \<times> addr) list"
  | Call_DeleteExpired "nat \<Rightarrow> int"
  | Call_Len
  | Call_Resize int

datatype ('k, 'v) ret =
    Ret_unit
  | Ret_bool bool
  | Ret_int int
  | Ret_value "'v option"
  | Ret_entry "('k KT \<times> 'v) option"
  | Ret_keys "'k KT list"

fun step :: "('k, 'v) call \<Rightarrow> ('k, 'v) state \<Rightarrow> (('k, 'v) ret \<times> ('k, 'v) state) option" where
  "step (Call_Add k v now) s = map_option (map_prod Ret_bool id) (Add k v now s)"
| "step (Call_AddWithTTL k v t now) s = map_option (map_prod Ret_bool id) (AddWithTTL k v t now s)"
| "step (Call_Get k now) s = map_option (map_prod Ret_value id) (Get k now s)"
| "step (Call_Peek k now) s = map_option (map_prod Ret_value id) (Peek k now s)"
| "step Call_GetOldest s = map_option (map_prod Ret_entry id) (GetOldest s)"
| "step (Call_Contains k) s = Some (Ret_bool (Contains k s), s)"
| "step (Call_Remove k) s = map_option (map_prod Ret_bool id) (Remove k s)"
| "step Call_RemoveOldest s = map_option (map_prod Ret_entry id) (RemoveOldest s)"
| "step Call_Keys s = map_option (\<lambda>ks. (Ret_keys ks, s)) (Keys s)"
| "step (Call_Purge order) s = map_option (Pair Ret_unit) (Purge order s)"
| "step (Call_DeleteExpired clock) s = map_option (Pair Ret_unit) (DeleteExpired clock s)"
| "step Call_Len s = Some (Ret_int (Len s), s)"
| "step (Call_Resize sz) s = map_option (map_prod Ret_int id) (Resize sz s)"

text \<open>The range of \<^verbatim>\<open>Purge\<close> yields every entry of the map once.\<close>

fun admissible :: "('k, 'v) call \<Rightarrow> ('k, 'v) state \<Rightarrow> bool" where
  "admissible (Call_Purge order) s = (mset order = mset (c_items s))"
| "admissible _ s = True"

text \<open>A call that adds a key which is not equal to itself.\<close>

fun adds_NaN :: "('k, 'v) call \<Rightarrow> bool" where
  "adds_NaN (Call_Add k v now) = (k = NaN)"
| "adds_NaN (Call_AddWithTTL k v t now) = (k = NaN)"
| "adds_NaN _ = False"

text \<open>
  The states a cache \<open>s0\<close> reaches by calls that return and that add only keys equal to
  themselves.
\<close>

inductive reaches :: "('k, 'v) state \<Rightarrow> ('k, 'v) state \<Rightarrow> bool" for s0 :: "('k, 'v) state" where
  start: "reaches s0 s0"
| call: "reaches s0 s \<Longrightarrow> admissible c s \<Longrightarrow> \<not> adds_NaN c \<Longrightarrow> step c s = Some (r, s') \<Longrightarrow>
         reaches s0 s'"

section \<open>Abstraction of the store\<close>

text \<open>
  The links along a list of addresses: every address has the one after it as its
  \<^verbatim>\<open>next\<close>, and is the \<^verbatim>\<open>prev\<close> of that one.
\<close>

fun linked :: "(addr \<Rightarrow> addr option) \<Rightarrow> (addr \<Rightarrow> addr option) \<Rightarrow> addr list \<Rightarrow> bool" where
  "linked nx pv (a # b # r) = (nx a = Some b \<and> pv b = Some a \<and> linked nx pv (b # r))"
| "linked nx pv _ = True"

text \<open>
  The list at \<open>l\<close> is a ring that holds the elements \<open>xs\<close>, from front to back: the links
  lead from the sentinel through \<open>xs\<close> and back to the sentinel, no address occurs twice,
  the elements name \<open>l\<close> as their list, \<^verbatim>\<open>len\<close> is their number, and all of them are
  allocated.
\<close>

definition is_ring :: "('k, 'v, 'x) heap_scheme \<Rightarrow> addr \<Rightarrow> addr list \<Rightarrow> bool" where
  "is_ring h l xs \<longleftrightarrow>
     distinct (l # xs) \<and> linked (e_next h) (e_prev h) (l # xs @ [l]) \<and>
     (\<forall>x\<in>set xs. e_list h x = Some l) \<and> l_len h l = int (length xs) \<and>
     (\<forall>x\<in>set (l # xs). x < free h)"

text \<open>The key and the value of the entry of an element of the list.\<close>

definition kof :: "('k, 'v) state \<Rightarrow> addr \<Rightarrow> 'k KT" where
  "kof s a = key (the (e_Value s a))"

definition vof :: "('k, 'v) state \<Rightarrow> addr \<Rightarrow> 'v" where
  "vof s a = val (the (e_Value s a))"

text \<open>
  A map in which no key occurs twice and no key is \<open>NaN\<close>: what assignments and deletions
  of keys that are equal to themselves make of the empty map.
\<close>

definition wf_items :: "('k KT \<times> 'a) list \<Rightarrow> bool" where
  "wf_items m \<longleftrightarrow> distinct (map fst m) \<and> NaN \<notin> fst ` set m"

text \<open>
  The invariant of the cache, for the elements \<open>xs\<close> of its list from front to back:
  the list is a ring of them, every element has an entry, the map sends the key of that
  entry to the element, and the map has no other entry.
\<close>

definition binv :: "('k, 'v) state \<Rightarrow> addr list \<Rightarrow> bool" where
  "binv s xs \<longleftrightarrow>
     is_ring s (c_evictList s) xs \<and> wf_items (c_items s) \<and>
     (\<forall>a\<in>set xs. \<exists>kv. e_Value s a = Some kv \<and> map_lookup (c_items s) (key kv) = Some a) \<and>
     (\<forall>k a. map_lookup (c_items s) k = Some a \<longrightarrow>
            a \<in> set xs \<and> (\<exists>kv. e_Value s a = Some kv \<and> key kv = k))"

text \<open>With a positive capacity, the list is no longer than the capacity.\<close>

definition cinv :: "('k, 'v) state \<Rightarrow> addr list \<Rightarrow> bool" where
  "cinv s xs \<longleftrightarrow> binv s xs \<and> (0 < c_size s \<longrightarrow> int (length xs) \<le> c_size s)"

text \<open>The arguments of the callback for an element.\<close>

definition kvof :: "('k, 'v) state \<Rightarrow> addr \<Rightarrow> 'k KT \<times> 'v" where
  "kvof s a = (kof s a, vof s a)"

text \<open>What the removals leave as it was: the entries and the configuration.\<close>

definition frame :: "('k, 'v) state \<Rightarrow> ('k, 'v) state \<Rightarrow> bool" where
  "frame s s' \<longleftrightarrow>
     e_Value s' = e_Value s \<and> c_onEvicted s' = c_onEvicted s \<and>
     c_evictList s' = c_evictList s \<and> c_size s' = c_size s"

text \<open>The expiry of the entry of an element.\<close>

definition eof :: "('k, 'v) state \<Rightarrow> addr \<Rightarrow> int" where
  "eof s a = expiresAt (the (e_Value s a))"

text \<open>
  The elements that the scan of \<^verbatim>\<open>deleteExpired\<close> removes from \<open>as\<close>, for the expiry \<open>ex\<close>
  of each element: the element of round \<open>i\<close> is removed when the clock of that round is
  after its expiry.
\<close>

fun expired_nodes :: "(nat \<Rightarrow> int) \<Rightarrow> nat \<Rightarrow> (addr \<Rightarrow> int) \<Rightarrow> addr list \<Rightarrow> addr list" where
  "expired_nodes clock i ex [] = []"
| "expired_nodes clock i ex (a # as) =
     (if ex a < clock i then [a] else []) @ expired_nodes clock (Suc i) ex as"

text \<open>
  What one call does, from a state with the elements \<open>xs\<close> to a state with the elements
  \<open>xs'\<close>: the invariant holds again, the elements \<open>rem\<close> that left are each reported once
  to the callback, with the key and value they had, the elements that stay keep their
  keys, and a new element has a key that was not in the map.
\<close>

definition transition ::
  "('k, 'v) state \<Rightarrow> addr list \<Rightarrow> ('k, 'v) state \<Rightarrow> addr list \<Rightarrow> addr list \<Rightarrow> bool" where
  "transition s xs s' xs' rem \<longleftrightarrow>
     binv s' xs' \<and> c_onEvicted s' = c_onEvicted s \<and> c_evictList s' = c_evictList s \<and>
     distinct rem \<and> set rem = set xs - set xs' \<and>
     calls s' = calls s @ (if c_onEvicted s then map (kvof s) rem else []) \<and>
     (\<forall>a\<in>set xs \<inter> set xs'. kof s' a = kof s a) \<and>
     (\<forall>b\<in>set xs' - set xs. kof s' b \<notin> fst ` set (c_items s)) \<and>
     (0 < c_size s' \<longrightarrow> int (length xs') \<le> c_size s') \<and>
     (0 < c_size s \<longrightarrow> 0 < c_size s')"

text \<open>
  The iteration that the package comment of \<^verbatim>\<open>list.go\<close> gives for a list:
  \<^verbatim>\<open>for e := l.Front(); e != nil; e = e.Next()\<close>, collecting the elements it visits.
\<close>

partial_function (option) elements_loop ::
  "addr option \<Rightarrow> addr list \<Rightarrow> ('k, 'v, 'x) heap_scheme \<Rightarrow> addr list option" where
  "elements_loop e es h =
     (case e of
        None \<Rightarrow> Some es
      | Some a \<Rightarrow> elements_loop (Next a h) (es @ [a]) h)"

definition elements :: "addr \<Rightarrow> ('k, 'v, 'x) heap_scheme \<Rightarrow> addr list option" where
  "elements l h = elements_loop (Front l h) [] h"

section \<open>What a caller observes\<close>

text \<open>
  What a caller holding the mutex can read for a key: \<^verbatim>\<open>c.items[k].Value\<close>, the test
  \<^verbatim>\<open>time.Now().After(ent.Value.expiresAt)\<close> of \<^verbatim>\<open>Get\<close>, \<^verbatim>\<open>Peek\<close> and \<^verbatim>\<open>deleteExpired\<close>, and
  the arguments \<^verbatim>\<open>(kv.key, kv.value)\<close> that \<^verbatim>\<open>removeElement\<close> passes to the callback.
\<close>

definition entry :: "'k KT \<Rightarrow> ('k, 'v) state \<Rightarrow> ('k, 'v) expirableEntry option" where
  "entry k s = (case map_lookup (c_items s) k of None \<Rightarrow> None | Some a \<Rightarrow> e_Value s a)"

definition is_expired :: "int \<Rightarrow> 'k KT \<Rightarrow> ('k, 'v) state \<Rightarrow> bool" where
  "is_expired now k s = (case entry k s of None \<Rightarrow> False | Some kv \<Rightarrow> expiresAt kv < now)"

definition evicted_args :: "('k, 'v) state \<Rightarrow> 'k KT list \<Rightarrow> ('k KT \<times> 'v) list" where
  "evicted_args s ks = List.map_filter (\<lambda>k. map_option (\<lambda>kv. (key kv, val kv)) (entry k s)) ks"

section \<open>Example states\<close>

text \<open>
  A run for the examples: a cache of capacity 2 with the callback set and no default
  expiry, into which the keys 1, 2 and 3 are added at the times 0, 1 and 2.
\<close>

definition empty_heap :: "('k, 'v) heap" where
  "empty_heap = \<lparr>e_next = \<lambda>_. None, e_prev = \<lambda>_. None, e_list = \<lambda>_. None,
     e_Value = \<lambda>_. None, l_len = \<lambda>_. 0, free = 0\<rparr>"

definition run_calls :: "('k, 'v) call list \<Rightarrow> ('k, 'v) state \<Rightarrow> ('k, 'v) state" where
  "run_calls cs s = fold (\<lambda>c s. case step c s of Some (_, s') \<Rightarrow> s' | None \<Rightarrow> s) cs s"

definition demo0 :: "(nat, nat) state" where
  "demo0 = NewLRU 2 True 0 0 empty_heap"

definition demo1 :: "(nat, nat) state" where
  "demo1 = run_calls [Call_Add (Key 1) 10 0] demo0"

definition demo2 :: "(nat, nat) state" where
  "demo2 = run_calls [Call_Add (Key 2) 20 1] demo1"

definition demo3 :: "(nat, nat) state" where
  "demo3 = run_calls [Call_Add (Key 3) 30 2] demo2"

text \<open>
  Runs with a key that is not equal to itself, on a cache of capacity 1 with the callback
  set: \<^verbatim>\<open>Add\<close> of the key at time 0, then either \<^verbatim>\<open>RemoveOldest\<close> and \<^verbatim>\<open>Purge\<close>, whose range
  yields the one entry that is left in the map, or a second \<^verbatim>\<open>Add\<close> of the key.
\<close>

definition nan_run0 :: "(nat, nat) state" where
  "nan_run0 = NewLRU 1 True 0 0 empty_heap"

definition nan_run1 :: "(nat, nat) state" where
  "nan_run1 = run_calls [Call_Add NaN 1 0] nan_run0"

definition nan_run2 :: "(nat, nat) state" where
  "nan_run2 = run_calls [Call_RemoveOldest] nan_run1"

definition nan_run3 :: "(nat, nat) state" where
  "nan_run3 = run_calls [Call_Purge [(NaN, 1)]] nan_run2"

definition nan_run4 :: "(nat, nat) state" where
  "nan_run4 = run_calls [Call_Add NaN 2 1] nan_run1"

text \<open>
  A store with two lists: the list at address 0 is empty, the list at address 1 holds
  the element at address 2.
\<close>

definition two_lists :: "(nat, nat) heap" where
  "two_lists =
     (let (l0, h) = NewList empty_heap;
          (l1, h) = NewList h
      in case PushFront l1 (Some \<lparr>key = Key 7, val = 8, expiresAt = 0\<rparr>) h of
           Some (e, h) \<Rightarrow> h
         | None \<Rightarrow> h)"

definition demo4 :: "(nat, nat) state" where
  "demo4 = run_calls [Call_AddWithTTL (Key 2) 21 5 3] demo3"

definition demo5 :: "(nat, nat) state" where
  "demo5 = run_calls [Call_AddWithTTL (Key 7) 70 10 0] demo0"

text \<open>
  The clock of a scan that reads 4 in its first two rounds and 20 from the third on.
\<close>

definition demo6_clock :: "nat \<Rightarrow> int" where
  "demo6_clock i = (if i < 2 then 4 else 20)"

definition demo6 :: "(nat, nat) state" where
  "demo6 = run_calls [Call_AddWithTTL (Key 1) 10 5 0, Call_AddWithTTL (Key 2) 20 50 1,
       Call_AddWithTTL (Key 3) 30 5 2]
     (NewLRU 0 True 0 0 empty_heap)"

definition demo6' :: "(nat, nat) state" where
  "demo6' = run_calls [Call_DeleteExpired (\<lambda>_. 20)] demo6"

definition demo6'' :: "(nat, nat) state" where
  "demo6'' = run_calls [Call_DeleteExpired demo6_clock] demo6"

definition demo7 :: "(nat, nat) state" where
  "demo7 = run_calls [Call_Resize 1] demo6"

definition demo8 :: "(nat, nat) state" where
  "demo8 = run_calls [Call_Purge [(Key 3, 3), (Key 2, 2)]] demo3"

definition demo8' :: "(nat, nat) state" where
  "demo8' = run_calls [Call_Remove (Key 9)] demo3"


section \<open>Links\<close>

lemma linked_cong:
  "(\<And>a. a \<in> set (butlast cyc) \<Longrightarrow> nx' a = nx a) \<Longrightarrow> (\<And>b. b \<in> set (tl cyc) \<Longrightarrow> pv' b = pv b)
    \<Longrightarrow> linked nx' pv' cyc = linked nx pv cyc"
  by (induction nx pv cyc rule: linked.induct) auto

lemma linked_append:
  "linked nx pv (as @ b # bs) = (linked nx pv (as @ [b]) \<and> linked nx pv (b # bs))"
  by (induction nx pv as rule: linked.induct) (auto simp: neq_Nil_conv)

lemma linked_snoc2:
  "linked nx pv (as @ [a, b]) = (linked nx pv (as @ [a]) \<and> nx a = Some b \<and> pv b = Some a)"
  using linked_append[of nx pv as a "[b]"] by auto

lemma linked_join:
  assumes "L \<noteq> []" "R \<noteq> []"
  shows "linked nx pv (L @ R) = (linked nx pv L \<and> linked nx pv R \<and> nx (last L) = Some (hd R) \<and> pv (hd R) = Some (last L))"
proof -
  obtain L' p where L: "L = L' @ [p]" using assms(1) by (metis append_butlast_last_id)
  obtain n R' where R: "R = n # R'" using assms(2) by (cases R) auto
  have "linked nx pv (L' @ p # n # R') = (linked nx pv (L' @ [p]) \<and> linked nx pv (p # n # R'))"
    by (rule linked_append)
  then show ?thesis by (auto simp: L R)
qed

lemma last_notin_butlast: "distinct L \<Longrightarrow> L \<noteq> [] \<Longrightarrow> last L \<notin> set (butlast L)"
  by (induction L) (auto dest: in_set_butlastD)

lemma hd_notin_tl: "distinct R \<Longrightarrow> hd R \<notin> set (tl R)"
  by (cases R) auto

lemma unlink_linked:
  assumes lk: "linked nx pv (l # ys @ e # zs @ [l])"
    and d: "distinct (l # ys @ e # zs)"
  shows "nx e = Some (hd (zs @ [l]))" and "pv e = Some (last (l # ys))"
    and "linked (nx(last (l # ys) := Some (hd (zs @ [l])))) (pv(hd (zs @ [l]) := Some (last (l # ys))))
           (l # ys @ zs @ [l])"
proof -
  let ?L = "l # ys" and ?R = "zs @ [l]"
  let ?p = "last ?L" and ?n = "hd ?R"
  have a: "linked nx pv (?L @ [e])" "linked nx pv (e # ?R)"
    using lk linked_append[of nx pv ?L e ?R] by auto
  have b: "linked nx pv ?L" "pv e = Some ?p" using a(1) linked_join[of ?L "[e]" nx pv] by auto
  have c: "linked nx pv ?R" "nx e = Some ?n" using a(2) linked_join[of "[e]" ?R nx pv] by auto
  show "nx e = Some ?n" by fact
  show "pv e = Some ?p" by fact
  let ?nx = "nx(?p := Some ?n)" and ?pv = "pv(?n := Some ?p)"
  have pL: "?p \<in> set ?L" by (metis last_in_set list.distinct(1))
  have p1: "?p \<notin> set (butlast ?L)" using d last_notin_butlast[of ?L] by simp
  have p2: "?p \<notin> set zs" using pL d by auto
  have n1: "?n \<notin> set ys" using d by (cases zs) auto
  have n2: "?n \<notin> set (tl ?R)" using d hd_notin_tl[of ?R] by simp
  have L': "linked ?nx ?pv ?L = linked nx pv ?L"
    by (rule linked_cong) (use p1 n1 in auto)
  have R': "linked ?nx ?pv ?R = linked nx pv ?R"
    by (rule linked_cong) (use p2 n2 in auto)
  have "?L \<noteq> []" "?R \<noteq> []" by simp_all
  from linked_join[OF this, of ?nx ?pv] have "linked ?nx ?pv (?L @ ?R)"
    using L' R' b(1) c(1) by (simp only: fun_upd_same simp_thms)
  then show "linked ?nx ?pv (l # ys @ zs @ [l])" by simp
qed

lemma link_linked:
  assumes lk: "linked nx pv (l # xs @ [l])"
    and d: "distinct (l # xs)" and e: "e \<notin> set (l # xs)"
  shows "nx l = Some (hd (xs @ [l]))"
    and "linked (nx(e := Some (hd (xs @ [l])), l := Some e)) (pv(e := Some l, hd (xs @ [l]) := Some e))
           (l # e # xs @ [l])"
proof -
  let ?R = "xs @ [l]"
  let ?f = "hd ?R"
  have a: "linked nx pv ?R" "nx l = Some ?f" "pv ?f = Some l"
    using lk linked_join[of "[l]" ?R nx pv] by auto
  show "nx l = Some ?f" by fact
  let ?nx = "nx(e := Some ?f, l := Some e)" and ?pv = "pv(e := Some l, ?f := Some e)"
  have f2: "?f \<notin> set (tl ?R)" using d hd_notin_tl[of ?R] by simp
  have fe: "?f \<noteq> e" using e by (cases xs) auto
  have e2: "e \<notin> set (tl ?R)" using e by (cases xs) auto
  have l2: "l \<notin> set (butlast ?R)" using d by simp
  have e3: "e \<notin> set (butlast ?R)" using e by simp
  have R': "linked ?nx ?pv ?R = linked nx pv ?R"
    by (rule linked_cong) (use e2 e3 l2 f2 in auto)
  have le: "linked ?nx ?pv [l, e]" using e fe by simp
  have "[l, e] \<noteq> []" "?R \<noteq> []" by simp_all
  from linked_join[OF this, of ?nx ?pv] have "linked ?nx ?pv ([l, e] @ ?R)"
    using R' a(1) le e fe by simp
  then show "linked ?nx ?pv (l # e # xs @ [l])" by simp
qed

section \<open>The list operations on a ring\<close>

lemma move_eq:
  assumes "e \<noteq> at" "e_prev h e = Some p" "e_next h e = Some n" "p \<noteq> e"
    and "((e_next h)(p := Some n)) at = Some f"
  shows "move l e at h = Some (h\<lparr>e_next := ((e_next h)(p := Some n))(e := Some f, at := Some e),
            e_prev := ((e_prev h)(n := Some p))(e := Some at, f := Some e)\<rparr>)"
  using assms by (simp add: move_def)

lemma remove_eq:
  assumes "e_prev h e = Some p" "e_next h e = Some n" "p \<noteq> e"
  shows "remove l e h = Some (h\<lparr>e_next := ((e_next h)(p := Some n))(e := None),
            e_prev := ((e_prev h)(n := Some p))(e := None),
            e_list := (e_list h)(e := None), l_len := (l_len h)(l := l_len h l - 1)\<rparr>)"
  using assms by (simp add: remove_def)

lemma insertValue_eq:
  assumes "e_next h at = Some f" "at \<noteq> free h"
  shows "insertValue l v at h = Some (free h,
           h\<lparr>e_next := (e_next h)(free h := Some f, at := Some (free h)),
             e_prev := ((e_prev h)(free h := Some at))(f := Some (free h)),
             e_list := (e_list h)(free h := Some l), e_Value := (e_Value h)(free h := v),
             l_len := (l_len h)(l := l_len h l + 1), free := Suc (free h)\<rparr>)"
  using assms by (simp add: insertValue_def new_Element_def insert_at_def Let_def)

lemma ring_next_root: "is_ring h l xs \<Longrightarrow> e_next h l = Some (hd (xs @ [l]))"
  unfolding is_ring_def using linked_join[of "[l]" "xs @ [l]" "e_next h" "e_prev h"] by auto

lemma ring_prev_root: "is_ring h l xs \<Longrightarrow> e_prev h l = Some (last (l # xs))"
  unfolding is_ring_def using linked_join[of "l # xs" "[l]" "e_next h" "e_prev h"] by auto

lemma ring_Back: "is_ring h l xs \<Longrightarrow> Back l h = (if xs = [] then None else Some (last xs))"
  using ring_prev_root[of h l xs] by (auto simp: Back_def is_ring_def)

lemma ring_Front: "is_ring h l xs \<Longrightarrow> Front l h = (if xs = [] then None else Some (hd xs))"
  using ring_next_root[of h l xs] by (auto simp: Front_def is_ring_def)

lemma ring_MoveToFront:
  assumes r: "is_ring h l xs" and e: "e \<in> set xs"
  shows "\<exists>nx pv. MoveToFront l e h = Some (h\<lparr>e_next := nx, e_prev := pv\<rparr>)
           \<and> is_ring (h\<lparr>e_next := nx, e_prev := pv\<rparr>) l (e # remove1 e xs)"
proof -
  obtain ys zs where xs: "xs = ys @ e # zs" using e by (auto dest: split_list)
  have d: "distinct (l # ys @ e # zs)" and lk: "linked (e_next h) (e_prev h) (l # ys @ e # zs @ [l])"
    using r by (auto simp: is_ring_def xs)
  have rm: "remove1 e xs = ys @ zs" using d by (simp add: xs remove1_append)
  have el: "e_list h e = Some l" using r e by (simp add: is_ring_def)
  show ?thesis
  proof (cases ys)
    case Nil
    then have "e_next h l = Some e" using ring_next_root[OF r] by (simp add: xs)
    then have "MoveToFront l e h = Some (h\<lparr>e_next := e_next h, e_prev := e_prev h\<rparr>)"
      by (simp add: MoveToFront_def)
    moreover have "is_ring (h\<lparr>e_next := e_next h, e_prev := e_prev h\<rparr>) l (e # remove1 e xs)"
      using r Nil by (simp add: rm) (simp add: xs)
    ultimately show ?thesis by blast
  next
    case (Cons y ys')
    let ?p = "last (l # ys)" and ?n = "hd (zs @ [l])"
    let ?nx1 = "(e_next h)(?p := Some ?n)" and ?pv1 = "(e_prev h)(?n := Some ?p)"
    note u = unlink_linked[OF lk d]
    have "?p \<in> set (l # ys)" by (rule last_in_set) simp
    then have pe: "?p \<noteq> e" using d by auto
    have d2: "distinct (l # ys @ zs)" "e \<notin> set (l # ys @ zs)" using d by auto
    note k = link_linked[OF _ d2, of ?nx1 ?pv1, simplified, OF u(3)[simplified]]
    let ?f = "hd (ys @ zs @ [l])"
    have nf: "e_next h l \<noteq> Some e" using ring_next_root[OF r] d Cons by (auto simp: xs)
    have "e \<noteq> l" using d by auto
    from move_eq[OF this u(2) u(1) pe, of ?f l] k(1)
    have "move l e l h = Some (h\<lparr>e_next := ?nx1(e := Some ?f, l := Some e),
            e_prev := ?pv1(e := Some l, ?f := Some e)\<rparr>)" by simp
    then have "MoveToFront l e h = Some (h\<lparr>e_next := ?nx1(e := Some ?f, l := Some e),
            e_prev := ?pv1(e := Some l, ?f := Some e)\<rparr>)"
      using nf el by (simp add: MoveToFront_def)
    moreover have "is_ring (h\<lparr>e_next := ?nx1(e := Some ?f, l := Some e),
            e_prev := ?pv1(e := Some l, ?f := Some e)\<rparr>) l (e # ys @ zs)"
      using k(2) r d unfolding is_ring_def xs by auto
    ultimately show ?thesis unfolding rm by blast
  qed
qed

lemma ring_List_Remove:
  assumes r: "is_ring h l xs" and e: "e \<in> set xs"
  shows "\<exists>nx pv. List_Remove l e h = Some (e_Value h e,
             h\<lparr>e_next := nx, e_prev := pv, e_list := (e_list h)(e := None),
               l_len := (l_len h)(l := l_len h l - 1)\<rparr>)
           \<and> is_ring (h\<lparr>e_next := nx, e_prev := pv, e_list := (e_list h)(e := None),
               l_len := (l_len h)(l := l_len h l - 1)\<rparr>) l (remove1 e xs)"
proof -
  obtain ys zs where xs: "xs = ys @ e # zs" using e by (auto dest: split_list)
  have d: "distinct (l # ys @ e # zs)" and lk: "linked (e_next h) (e_prev h) (l # ys @ e # zs @ [l])"
    using r by (auto simp: is_ring_def xs)
  have rm: "remove1 e xs = ys @ zs" using d by (simp add: xs remove1_append)
  have el: "e_list h e = Some l" using r e by (simp add: is_ring_def)
  let ?p = "last (l # ys)" and ?n = "hd (zs @ [l])"
  let ?nx1 = "(e_next h)(?p := Some ?n)" and ?pv1 = "(e_prev h)(?n := Some ?p)"
  let ?h' = "h\<lparr>e_next := ?nx1(e := None), e_prev := ?pv1(e := None), e_list := (e_list h)(e := None),
               l_len := (l_len h)(l := l_len h l - 1)\<rparr>"
  note u = unlink_linked[OF lk d]
  have "?p \<in> set (l # ys)" by (rule last_in_set) simp
  then have pe: "?p \<noteq> e" using d by auto
  have "remove l e h = Some ?h'" using remove_eq[OF u(2) u(1) pe] by simp
  then have 1: "List_Remove l e h = Some (e_Value h e, ?h')" using el by (simp add: List_Remove_def)
  have "linked (?nx1(e := None)) (?pv1(e := None)) (l # ys @ zs @ [l]) = linked ?nx1 ?pv1 (l # ys @ zs @ [l])"
    by (rule linked_cong) (use d in \<open>auto simp: butlast_append\<close>)
  then have "linked (?nx1(e := None)) (?pv1(e := None)) (l # ys @ zs @ [l])" using u(3) by simp
  then have 2: "is_ring ?h' l (ys @ zs)" using r d unfolding is_ring_def xs by auto
  show ?thesis using 1 2 unfolding rm by blast
qed

lemma ring_PushFront:
  assumes r: "is_ring h l xs"
  shows "\<exists>nx pv. PushFront l v h = Some (free h,
             h\<lparr>e_next := nx, e_prev := pv, e_list := (e_list h)(free h := Some l),
               e_Value := (e_Value h)(free h := v),
               l_len := (l_len h)(l := l_len h l + 1), free := Suc (free h)\<rparr>)
           \<and> is_ring (h\<lparr>e_next := nx, e_prev := pv, e_list := (e_list h)(free h := Some l),
               e_Value := (e_Value h)(free h := v),
               l_len := (l_len h)(l := l_len h l + 1), free := Suc (free h)\<rparr>) l (free h # xs)"
proof -
  let ?e = "free h" and ?f = "hd (xs @ [l])"
  have d: "distinct (l # xs)" and lk: "linked (e_next h) (e_prev h) (l # xs @ [l])"
    and fr: "\<forall>x\<in>set (l # xs). x < free h"
    using r by (auto simp: is_ring_def)
  have e: "?e \<notin> set (l # xs)" using fr by auto
  note k = link_linked[OF lk d e]
  have li: "lazyInit l h = h" using k(1) by (simp add: lazyInit_def)
  have le: "l \<noteq> ?e" using e by auto
  let ?h' = "h\<lparr>e_next := (e_next h)(?e := Some ?f, l := Some ?e),
             e_prev := ((e_prev h)(?e := Some l))(?f := Some ?e),
             e_list := (e_list h)(?e := Some l), e_Value := (e_Value h)(?e := v),
             l_len := (l_len h)(l := l_len h l + 1), free := Suc ?e\<rparr>"
  have 1: "PushFront l v h = Some (?e, ?h')"
    using insertValue_eq[OF k(1) le] by (simp add: PushFront_def li)
  have 2: "is_ring ?h' l (?e # xs)" using k(2) r e unfolding is_ring_def by (auto simp: less_Suc_eq)
  show ?thesis using 1 2 by blast
qed

lemma ring_Init: "l < free h \<Longrightarrow> is_ring (Init l h) l []"
  by (simp add: is_ring_def Init_def)

lemma ring_Prev:
  assumes r: "is_ring h l (ys @ e # zs)"
  shows "Prev e h = (if ys = [] then None else Some (last ys))"
proof -
  have d: "distinct (l # ys @ e # zs)" and lk: "linked (e_next h) (e_prev h) (l # ys @ e # zs @ [l])"
    and el: "e_list h e = Some l"
    using r by (auto simp: is_ring_def)
  note u = unlink_linked[OF lk d]
  have "ys \<noteq> [] \<Longrightarrow> last ys \<noteq> l" using d by auto
  then show ?thesis using u(2) el by (auto simp: Prev_def)
qed

lemma ring_Next:
  assumes r: "is_ring h l (ys @ e # zs)"
  shows "Next e h = (if zs = [] then None else Some (hd zs))"
proof -
  have d: "distinct (l # ys @ e # zs)" and lk: "linked (e_next h) (e_prev h) (l # ys @ e # zs @ [l])"
    and el: "e_list h e = Some l"
    using r by (auto simp: is_ring_def)
  note u = unlink_linked[OF lk d]
  have "zs \<noteq> [] \<Longrightarrow> hd zs \<noteq> l" using d by (cases zs) auto
  then show ?thesis using u(1) el by (auto simp: Next_def)
qed

lemma ring_length: "is_ring h l xs \<Longrightarrow> l_len h l = int (length xs)"
  by (simp add: is_ring_def)

section \<open>The map\<close>

lemma key_eq_iff: "key_eq a b \<longleftrightarrow> a = b \<and> a \<noteq> NaN"
  by (cases a; cases b) auto

lemma map_lookup_Nil [simp]: "map_lookup [] k = None"
  by (simp add: map_lookup_def)

lemma map_lookup_NaN [simp]: "map_lookup m NaN = None"
  by (induction m) (auto simp: map_lookup_def key_eq_iff)


lemma map_lookup_None: "map_lookup m k = None \<longleftrightarrow> k = NaN \<or> k \<notin> fst ` set m"
  by (induction m) (auto simp: map_lookup_def key_eq_iff)

lemma map_lookup_delete [simp]:
  "map_lookup (map_delete m k) k' = (if k = k' then None else map_lookup m k')"
  by (induction m) (auto simp: map_lookup_def map_delete_def key_eq_iff)

lemma map_delete_NaN [simp]: "map_delete m NaN = m"
  by (simp add: map_delete_def key_eq_iff)

lemma map_assign_NaN [simp]: "map_assign m NaN a = m @ [(NaN, a)]"
  by (simp add: map_assign_def key_eq_iff)

lemma map_assign_new: "map_lookup m k = None \<Longrightarrow> map_assign m k a = m @ [(k, a)]"
  by (auto simp: map_assign_def key_eq_iff map_lookup_None)

lemma map_lookup_append:
  "map_lookup (m @ [(k, a)]) k' = (if k = k' \<and> k \<noteq> NaN \<and> map_lookup m k' = None then Some a else map_lookup m k')"
  by (induction m) (auto simp: map_lookup_def key_eq_iff)

lemma map_lookup_assign:
  "map_lookup m k = None \<Longrightarrow> k \<noteq> NaN \<Longrightarrow>
   map_lookup (map_assign m k a) k' = (if k' = k then Some a else map_lookup m k')"
  by (auto simp: map_assign_new map_lookup_append)

lemma wf_items_Nil [simp]: "wf_items []"
  by (simp add: wf_items_def)

lemma wf_items_delete: "wf_items m \<Longrightarrow> wf_items (map_delete m k)"
  by (auto simp: wf_items_def map_delete_def distinct_map_filter)

lemma wf_items_append:
  "wf_items m \<Longrightarrow> k \<noteq> NaN \<Longrightarrow> map_lookup m k = None \<Longrightarrow> wf_items (m @ [(k, a)])"
  by (auto simp: wf_items_def map_lookup_None)

lemma wf_items_assign:
  "wf_items m \<Longrightarrow> k \<noteq> NaN \<Longrightarrow> map_lookup m k = None \<Longrightarrow> wf_items (map_assign m k a)"
  by (simp add: map_assign_new wf_items_append)

lemma wf_items_lookup: "wf_items m \<Longrightarrow> map_lookup m k = Some a \<longleftrightarrow> (k, a) \<in> set m"
proof (induction m)
  case Nil
  then show ?case by simp
next
  case (Cons e m)
  then show ?case by (cases e) (force simp: wf_items_def map_lookup_def key_eq_iff)
qed

lemma wf_items_length: "wf_items m \<Longrightarrow> length m = card (fst ` set m)"
  by (metis wf_items_def distinct_card length_map set_map)

lemma wf_items_distinct: "wf_items m \<Longrightarrow> distinct m"
  by (auto simp: wf_items_def distinct_map)

section \<open>The invariant of the cache\<close>

lemma keys_loop_None [simp]: "keys_loop None ks s = Some ks"
  by (subst keys_loop.simps) simp

lemma keys_loop_Some:
  "keys_loop (Some e) ks s =
     (case e_Value s e of None \<Rightarrow> None | Some kv \<Rightarrow> keys_loop (Prev e s) (ks @ [key kv]) s)"
  by (subst keys_loop.simps) simp

lemma keys_loop_ring:
  assumes "is_ring s l (ys @ e # zs)" and "\<forall>a\<in>set (ys @ [e]). e_Value s a \<noteq> None"
  shows "keys_loop (Some e) ks s = Some (ks @ map (kof s) (rev (ys @ [e])))"
  using assms
proof (induction ys arbitrary: e zs ks rule: rev_induct)
  case Nil
  then show ?case using ring_Prev[of s l "[]" e zs] by (auto simp: keys_loop_Some kof_def)
next
  case (snoc y ys)
  have r: "is_ring s l (ys @ y # (e # zs))" using snoc.prems(1) by simp
  have "Prev e s = Some y" using ring_Prev[OF snoc.prems(1)] by simp
  moreover have "keys_loop (Some y) (ks @ [kof s e]) s = Some ((ks @ [kof s e]) @ map (kof s) (rev (ys @ [y])))"
    by (rule snoc.IH[OF r]) (use snoc.prems(2) in auto)
  ultimately show ?case using snoc.prems(2) by (auto simp: keys_loop_Some kof_def)
qed

lemma binv_ring: "binv s xs \<Longrightarrow> is_ring s (c_evictList s) xs"
  by (simp add: binv_def)

lemma binv_distinct: "binv s xs \<Longrightarrow> distinct xs"
  by (simp add: binv_def is_ring_def)

lemma binv_Value: "binv s xs \<Longrightarrow> a \<in> set xs \<Longrightarrow> \<exists>kv. e_Value s a = Some kv \<and> map_lookup (c_items s) (key kv) = Some a"
  by (simp add: binv_def)

lemma binv_items: "binv s xs \<Longrightarrow> map_lookup (c_items s) k = Some a \<Longrightarrow> a \<in> set xs \<and> (\<exists>kv. e_Value s a = Some kv \<and> key kv = k)"
  by (simp add: binv_def)

lemma binv_items_kof: "binv s xs \<Longrightarrow> a \<in> set xs \<Longrightarrow> map_lookup (c_items s) (kof s a) = Some a"
  by (auto simp: kof_def dest: binv_Value)

lemma binv_items_iff: "binv s xs \<Longrightarrow> map_lookup (c_items s) k = Some a \<longleftrightarrow> a \<in> set xs \<and> kof s a = k"
  by (auto simp: kof_def dest: binv_Value binv_items)

lemma binv_inj: "binv s xs \<Longrightarrow> inj_on (kof s) (set xs)"
  by (rule inj_onI) (metis binv_items_kof option.inject)

lemma binv_wf: "binv s xs \<Longrightarrow> wf_items (c_items s)"
  by (simp add: binv_def)

lemma binv_set_items: 
  assumes "binv s xs" shows "set (c_items s) = (\<lambda>a. (kof s a, a)) ` set xs"
proof -
  have "(k, a) \<in> set (c_items s) \<longleftrightarrow> a \<in> set xs \<and> kof s a = k" for k a
    using wf_items_lookup[OF binv_wf[OF assms], of k a] binv_items_iff[OF assms, of k a] by simp
  then show ?thesis by auto
qed

lemma binv_dom: "binv s xs \<Longrightarrow> fst ` set (c_items s) = kof s ` set xs"
  by (simp add: binv_set_items image_image)

lemma binv_card: "binv s xs \<Longrightarrow> length (c_items s) = length xs"
  by (simp add: wf_items_length[OF binv_wf] binv_dom card_image binv_inj distinct_card binv_distinct)

lemma binv_distinct_keys: "binv s xs \<Longrightarrow> distinct (map (kof s) xs)"
  by (simp add: distinct_map binv_inj binv_distinct)

lemma binv_keys: 
  assumes "binv s xs" shows "keys s = Some (map (kof s) (rev xs))"
proof (cases xs rule: rev_cases)
  case Nil
  then show ?thesis using ring_Back[OF binv_ring[OF assms]] by (simp add: keys_def)
next
  case (snoc ys e)
  have "keys_loop (Some e) [] s = Some ([] @ map (kof s) (rev (ys @ [e])))"
    by (rule keys_loop_ring[where zs="[]" and l="c_evictList s"])
       (use assms snoc binv_Value[OF assms] in \<open>auto dest!: binv_ring\<close>)
  then show ?thesis using ring_Back[OF binv_ring[OF assms]] snoc by (simp add: keys_def)
qed

lemma binv_Len: "binv s xs \<Longrightarrow> Len s = int (length xs)"
  by (simp add: Len_def List_Len_def binv_def is_ring_def)

section \<open>The cache operations under the invariant\<close>

lemma removeElement_spec:
  assumes c: "binv s xs" and a: "a \<in> set xs"
  shows "\<exists>nx pv. removeElement a s = Some (s\<lparr>e_next := nx, e_prev := pv,
             e_list := (e_list s)(a := None),
             l_len := (l_len s)(c_evictList s := l_len s (c_evictList s) - 1),
             c_items := map_delete (c_items s) (kof s a),
             calls := (if c_onEvicted s then calls s @ [(kof s a, vof s a)] else calls s)\<rparr>)
           \<and> binv (s\<lparr>e_next := nx, e_prev := pv,
             e_list := (e_list s)(a := None),
             l_len := (l_len s)(c_evictList s := l_len s (c_evictList s) - 1),
             c_items := map_delete (c_items s) (kof s a),
             calls := (if c_onEvicted s then calls s @ [(kof s a, vof s a)] else calls s)\<rparr>) (remove1 a xs)"
proof -
  let ?l = "c_evictList s"
  obtain kv where kv: "e_Value s a = Some kv" "map_lookup (c_items s) (key kv) = Some a"
    using binv_Value[OF c a] by blast
  obtain nx pv where R: "List_Remove ?l a s = Some (e_Value s a,
             s\<lparr>e_next := nx, e_prev := pv, e_list := (e_list s)(a := None),
               l_len := (l_len s)(?l := l_len s ?l - 1)\<rparr>)"
     and r': "is_ring (s\<lparr>e_next := nx, e_prev := pv, e_list := (e_list s)(a := None),
               l_len := (l_len s)(?l := l_len s ?l - 1)\<rparr>) ?l (remove1 a xs)"
    using ring_List_Remove[OF binv_ring[OF c] a] by blast
  let ?s' = "s\<lparr>e_next := nx, e_prev := pv,
             e_list := (e_list s)(a := None),
             l_len := (l_len s)(?l := l_len s ?l - 1),
             c_items := map_delete (c_items s) (kof s a),
             calls := (if c_onEvicted s then calls s @ [(kof s a, vof s a)] else calls s)\<rparr>"
  have 1: "removeElement a s = Some ?s'"
    using R kv by (simp add: removeElement_def kof_def vof_def)
  have d: "distinct xs" by (rule binv_distinct[OF c])
  have ring': "is_ring ?s' ?l (remove1 a xs)" using r' by (simp add: is_ring_def)
  have 2: "binv ?s' (remove1 a xs)"
    unfolding binv_def
  proof (intro conjI ballI allI impI)
    show "is_ring ?s' (c_evictList ?s') (remove1 a xs)" using ring' by simp
  next
    show "wf_items (c_items ?s')" using wf_items_delete[OF binv_wf[OF c]] by simp
  next
    fix b assume b: "b \<in> set (remove1 a xs)"
    then have bx: "b \<in> set xs" "b \<noteq> a" using d by auto
    obtain kb where kb: "e_Value s b = Some kb" "map_lookup (c_items s) (key kb) = Some b"
      using binv_Value[OF c bx(1)] by blast
    have "key kb \<noteq> kof s a" using kb kv bx(2) by (auto simp: kof_def)
    then show "\<exists>kv. e_Value ?s' b = Some kv \<and> map_lookup (c_items ?s') (key kv) = Some b"
      using kb by simp
  next
    fix k b assume "map_lookup (c_items ?s') k = Some b"
    then have kb: "map_lookup (c_items s) k = Some b" "k \<noteq> kof s a" by (auto split: if_splits)
    then have "b \<noteq> a" using kv binv_items[OF c kb(1)] by (auto simp: kof_def)
    then show "b \<in> set (remove1 a xs)" using binv_items[OF c kb(1)] d by auto
    show "\<exists>kv. e_Value ?s' b = Some kv \<and> key kv = k" using binv_items[OF c kb(1)] by simp
  qed
  show ?thesis using 1 2 by blast
qed

lemma frame_refl [simp]: "frame s s"
  by (simp add: frame_def)

lemma frame_trans: "frame s s' \<Longrightarrow> frame s' s'' \<Longrightarrow> frame s s''"
  by (simp add: frame_def)

lemma frame_kvof: "frame s s' \<Longrightarrow> kvof s' = kvof s"
  by (auto simp: frame_def kvof_def kof_def vof_def fun_eq_iff)

lemma frame_kof: "frame s s' \<Longrightarrow> kof s' = kof s"
  by (auto simp: frame_def kof_def fun_eq_iff)

lemma removeElement_frame:
  assumes c: "binv s xs" and a: "a \<in> set xs"
  shows "\<exists>s'. removeElement a s = Some s' \<and> binv s' (remove1 a xs) \<and> frame s s'
           \<and> calls s' = calls s @ (if c_onEvicted s then [kvof s a] else [])"
proof -
  from removeElement_spec[OF c a] obtain nx pv where
    "removeElement a s = Some (s\<lparr>e_next := nx, e_prev := pv,
             e_list := (e_list s)(a := None),
             l_len := (l_len s)(c_evictList s := l_len s (c_evictList s) - 1),
             c_items := map_delete (c_items s) (kof s a),
             calls := (if c_onEvicted s then calls s @ [(kof s a, vof s a)] else calls s)\<rparr>)"
    "binv (s\<lparr>e_next := nx, e_prev := pv,
             e_list := (e_list s)(a := None),
             l_len := (l_len s)(c_evictList s := l_len s (c_evictList s) - 1),
             c_items := map_delete (c_items s) (kof s a),
             calls := (if c_onEvicted s then calls s @ [(kof s a, vof s a)] else calls s)\<rparr>) (remove1 a xs)"
    by blast
  then show ?thesis by (intro exI conjI) (assumption, assumption, simp_all add: frame_def kvof_def)
qed

lemma removeOldest_frame:
  assumes c: "binv s xs"
  shows "\<exists>s'. removeOldest s = Some s' \<and> binv s' (butlast xs) \<and> frame s s'
           \<and> calls s' = calls s @ (if c_onEvicted s \<and> xs \<noteq> [] then [kvof s (last xs)] else [])"
proof (cases "xs = []")
  case True
  then show ?thesis using c ring_Back[OF binv_ring[OF c]] by (simp add: removeOldest_def)
next
  case False
  then have l: "last xs \<in> set xs" by simp
  have "remove1 (last xs) xs = butlast xs" using binv_distinct[OF c] False
    by (cases xs rule: rev_cases) (auto simp: remove1_append)
  then show ?thesis
    using removeElement_frame[OF c l] ring_Back[OF binv_ring[OF c]] False
    by (simp add: removeOldest_def)
qed

lemma removeOldest_times_frame:
  assumes "binv s xs"
  shows "\<exists>s'. removeOldest_times n s = Some s' \<and> binv s' (take (length xs - n) xs) \<and> frame s s'
           \<and> calls s' = calls s @ (if c_onEvicted s then map (kvof s) (rev (drop (length xs - n) xs)) else [])"
  using assms
proof (induction n arbitrary: s xs)
  case 0
  then show ?case by simp
next
  case (Suc n)
  from removeOldest_frame[OF Suc.prems] obtain s1 where s1:
    "removeOldest s = Some s1" "binv s1 (butlast xs)" "frame s s1"
    "calls s1 = calls s @ (if c_onEvicted s \<and> xs \<noteq> [] then [kvof s (last xs)] else [])" by blast
  from Suc.IH[OF s1(2)] obtain s' where s':
    "removeOldest_times n s1 = Some s'" "binv s' (take (length (butlast xs) - n) (butlast xs))" "frame s1 s'"
    "calls s' = calls s1 @ (if c_onEvicted s1 then map (kvof s1) (rev (drop (length (butlast xs) - n) (butlast xs))) else [])"
    by blast
  have t: "take (length (butlast xs) - n) (butlast xs) = take (length xs - Suc n) xs"
    by (cases xs rule: rev_cases) auto
  have dr: "xs \<noteq> [] \<Longrightarrow> drop (length xs - Suc n) xs = drop (length xs - Suc n) (butlast xs) @ [last xs]"
    by (cases xs rule: rev_cases) auto
  have cb: "c_onEvicted s1 = c_onEvicted s" and kv: "kvof s1 = kvof s"
    using s1(3) frame_kvof[OF s1(3)] by (simp_all add: frame_def)
  show ?case
  proof (intro exI conjI)
    show "removeOldest_times (Suc n) s = Some s'" using s1(1) s'(1) by simp
    show "binv s' (take (length xs - Suc n) xs)" using s'(2) t by simp
    show "frame s s'" by (rule frame_trans[OF s1(3) s'(3)])
    show "calls s' = calls s @ (if c_onEvicted s then map (kvof s) (rev (drop (length xs - Suc n) xs)) else [])"
    proof (cases "xs = []")
      case True then show ?thesis using s'(4) s1(4) cb kv by simp
    next
      case False
      then show ?thesis using s'(4) s1(4) cb kv dr[OF False] by (simp add: butlast_conv_take)
    qed
  qed
qed

lemma binv_fresh: "binv s xs \<Longrightarrow> free s \<notin> set xs \<and> free s \<noteq> c_evictList s"
  by (auto simp: binv_def is_ring_def)

lemma add_existing:
  assumes c: "binv s xs" and k: "map_lookup (c_items s) k = Some a"
  shows "\<exists>nx pv. add k v t now s = Some (False, s\<lparr>e_next := nx, e_prev := pv,
             e_Value := (e_Value s)(a \<mapsto> \<lparr>key = k, val = v, expiresAt = now + t\<rparr>)\<rparr>)
           \<and> binv (s\<lparr>e_next := nx, e_prev := pv,
             e_Value := (e_Value s)(a \<mapsto> \<lparr>key = k, val = v, expiresAt = now + t\<rparr>)\<rparr>) (a # remove1 a xs)"
proof -
  let ?l = "c_evictList s"
  from binv_items[OF c k] obtain kv where a: "a \<in> set xs" and kv: "e_Value s a = Some kv" "key kv = k"
    by blast
  from ring_MoveToFront[OF binv_ring[OF c] a] obtain nx pv where
    m: "MoveToFront ?l a s = Some (s\<lparr>e_next := nx, e_prev := pv\<rparr>)"
    and r: "is_ring (s\<lparr>e_next := nx, e_prev := pv\<rparr>) ?l (a # remove1 a xs)" by blast
  let ?s' = "s\<lparr>e_next := nx, e_prev := pv,
             e_Value := (e_Value s)(a \<mapsto> \<lparr>key = k, val = v, expiresAt = now + t\<rparr>)\<rparr>"
  have eq: "kv\<lparr>val := v, expiresAt := now + t\<rparr> = \<lparr>key = k, val = v, expiresAt = now + t\<rparr>"
    using kv(2) by (cases kv) simp
  have 1: "add k v t now s = Some (False, ?s')"
    using m k kv(1) by (simp add: add_def eq)
  have r': "is_ring ?s' ?l (a # remove1 a xs)" using r by (simp add: is_ring_def)
  have st: "set (a # remove1 a xs) = set xs" using a binv_distinct[OF c] by auto
  have 2: "binv ?s' (a # remove1 a xs)"
    unfolding binv_def st
  proof (intro conjI ballI allI impI)
    show "is_ring ?s' (c_evictList ?s') (a # remove1 a xs)" using r' by simp
  next
    show "wf_items (c_items ?s')" using binv_wf[OF c] by simp
  next
    fix b assume b: "b \<in> set xs"
    show "\<exists>kv. e_Value ?s' b = Some kv \<and> map_lookup (c_items ?s') (key kv) = Some b"
      using binv_Value[OF c b] k by auto
  next
    fix k' b assume "map_lookup (c_items ?s') k' = Some b"
    then have kb: "map_lookup (c_items s) k' = Some b" by simp
    show "b \<in> set xs" using binv_items[OF c kb] by simp
    show "\<exists>kv. e_Value ?s' b = Some kv \<and> key kv = k'" using binv_items[OF c kb] kv by auto
  qed
  show ?thesis using 1 2 by blast
qed

lemma add_new_push:
  assumes c: "binv s xs" and k: "map_lookup (c_items s) k = None" and n: "k \<noteq> NaN"
  shows "\<exists>nx pv. PushFront (c_evictList s) (Some \<lparr>key = k, val = v, expiresAt = ex\<rparr>) s
            = Some (free s, s\<lparr>e_next := nx, e_prev := pv, e_list := (e_list s)(free s := Some (c_evictList s)),
               e_Value := (e_Value s)(free s \<mapsto> \<lparr>key = k, val = v, expiresAt = ex\<rparr>),
               l_len := (l_len s)(c_evictList s := l_len s (c_evictList s) + 1), free := Suc (free s)\<rparr>)
         \<and> binv (s\<lparr>e_next := nx, e_prev := pv, e_list := (e_list s)(free s := Some (c_evictList s)),
               e_Value := (e_Value s)(free s \<mapsto> \<lparr>key = k, val = v, expiresAt = ex\<rparr>),
               l_len := (l_len s)(c_evictList s := l_len s (c_evictList s) + 1), free := Suc (free s),
               c_items := map_assign (c_items s) k (free s)\<rparr>) (free s # xs)"
proof -
  let ?l = "c_evictList s" and ?a = "free s" and ?en = "\<lparr>key = k, val = v, expiresAt = ex\<rparr>"
  from ring_PushFront[OF binv_ring[OF c], of "Some ?en"] obtain nx pv where
    p: "PushFront ?l (Some ?en) s = Some (?a, s\<lparr>e_next := nx, e_prev := pv, e_list := (e_list s)(?a := Some ?l),
               e_Value := (e_Value s)(?a \<mapsto> ?en),
               l_len := (l_len s)(?l := l_len s ?l + 1), free := Suc ?a\<rparr>)"
    and r: "is_ring (s\<lparr>e_next := nx, e_prev := pv, e_list := (e_list s)(?a := Some ?l),
               e_Value := (e_Value s)(?a \<mapsto> ?en),
               l_len := (l_len s)(?l := l_len s ?l + 1), free := Suc ?a\<rparr>) ?l (?a # xs)" by blast
  let ?s1 = "s\<lparr>e_next := nx, e_prev := pv, e_list := (e_list s)(?a := Some ?l),
               e_Value := (e_Value s)(?a \<mapsto> ?en),
               l_len := (l_len s)(?l := l_len s ?l + 1), free := Suc ?a,
               c_items := map_assign (c_items s) k ?a\<rparr>"
  have fr: "?a \<notin> set xs" using binv_fresh[OF c] by simp
  have r1: "is_ring ?s1 ?l (?a # xs)" using r by (simp add: is_ring_def)
  note lk = map_lookup_assign[OF k n]
  have "binv ?s1 (?a # xs)"
    unfolding binv_def
  proof (intro conjI ballI allI impI)
    show "is_ring ?s1 (c_evictList ?s1) (?a # xs)" using r1 by simp
  next
    show "wf_items (c_items ?s1)" using wf_items_assign[OF binv_wf[OF c] n k] by simp
  next
    fix b assume b: "b \<in> set (?a # xs)"
    show "\<exists>kv. e_Value ?s1 b = Some kv \<and> map_lookup (c_items ?s1) (key kv) = Some b"
    proof (cases "b = ?a")
      case True then show ?thesis by (simp add: lk)
    next
      case False
      then have "b \<in> set xs" using b by simp
      from binv_Value[OF c this] obtain kb where "e_Value s b = Some kb" "map_lookup (c_items s) (key kb) = Some b" by blast
      then show ?thesis using False k by (auto simp: lk)
    qed
  next
    fix k' b assume h: "map_lookup (c_items ?s1) k' = Some b"
    show "b \<in> set (?a # xs)" using h binv_items[OF c, of k' b] by (auto simp: lk split: if_splits)
    show "\<exists>kv. e_Value ?s1 b = Some kv \<and> key kv = k'"
      using h binv_items[OF c, of k' b] fr by (auto simp: lk split: if_splits)
  qed
  then show ?thesis using p by blast
qed

lemma add_new:
  assumes c: "binv s xs" and k: "map_lookup (c_items s) k = None" and n: "k \<noteq> NaN"
  shows "\<exists>s'. add k v t now s = Some (0 < c_size s \<and> c_size s < int (length xs) + 1, s')
           \<and> binv s' (free s # (if 0 < c_size s \<and> c_size s < int (length xs) + 1 then butlast xs else xs))
           \<and> e_Value s' = (e_Value s)(free s \<mapsto> \<lparr>key = k, val = v, expiresAt = now + t\<rparr>)
           \<and> c_onEvicted s' = c_onEvicted s \<and> c_evictList s' = c_evictList s \<and> c_size s' = c_size s
           \<and> calls s' = calls s @ (if (0 < c_size s \<and> c_size s < int (length xs) + 1) \<and> c_onEvicted s
                                   then [kvof s (last xs)] else [])"
proof -
  let ?l = "c_evictList s" and ?a = "free s" and ?en = "\<lparr>key = k, val = v, expiresAt = now + t\<rparr>"
  let ?ev = "0 < c_size s \<and> c_size s < int (length xs) + 1"
  from add_new_push[OF c k n, of v "now + t"] obtain nx pv where
    p: "PushFront ?l (Some ?en) s = Some (?a, s\<lparr>e_next := nx, e_prev := pv, e_list := (e_list s)(?a := Some ?l),
               e_Value := (e_Value s)(?a \<mapsto> ?en),
               l_len := (l_len s)(?l := l_len s ?l + 1), free := Suc ?a\<rparr>)"
    and b1: "binv (s\<lparr>e_next := nx, e_prev := pv, e_list := (e_list s)(?a := Some ?l),
               e_Value := (e_Value s)(?a \<mapsto> ?en),
               l_len := (l_len s)(?l := l_len s ?l + 1), free := Suc ?a,
               c_items := map_assign (c_items s) k ?a\<rparr>) (?a # xs)" by blast
  let ?s1 = "s\<lparr>e_next := nx, e_prev := pv, e_list := (e_list s)(?a := Some ?l),
               e_Value := (e_Value s)(?a \<mapsto> ?en),
               l_len := (l_len s)(?l := l_len s ?l + 1), free := Suc ?a,
               c_items := map_assign (c_items s) k ?a\<rparr>"
  have card: "length (map_assign (c_items s) k ?a) = Suc (length xs)" using binv_card[OF b1] by simp
  have fr: "?a \<notin> set xs" using binv_fresh[OF c] by simp
  show ?thesis
  proof (cases ?ev)
    case False
    then have "add k v t now s = Some (False, ?s1)"
      using p k card by (auto simp: add_def)
    then show ?thesis using False b1 by auto
  next
    case True
    then have ne: "xs \<noteq> []" by auto
    from removeOldest_frame[OF b1] obtain s' where s':
      "removeOldest ?s1 = Some s'" "binv s' (butlast (?a # xs))" "frame ?s1 s'"
      "calls s' = calls ?s1 @ (if c_onEvicted ?s1 \<and> ?a # xs \<noteq> [] then [kvof ?s1 (last (?a # xs))] else [])"
      by blast
    have la: "last xs \<noteq> ?a" using fr ne last_in_set by metis
    have kv: "kvof ?s1 (last (?a # xs)) = kvof s (last xs)"
      using ne la by (simp add: kvof_def kof_def vof_def)
    have "add k v t now s = Some (True, s')"
      using p k card True s'(1) by (auto simp: add_def)
    then show ?thesis using True s' ne kv by (auto simp: frame_def)
  qed
qed

lemma frame_eof: "frame s s' \<Longrightarrow> eof s' = eof s"
  by (auto simp: frame_def eof_def fun_eq_iff)

lemma binv_relink:
  assumes c: "binv s xs" and r: "is_ring (s\<lparr>e_next := nx, e_prev := pv\<rparr>) (c_evictList s) xs'"
    and st: "set xs' = set xs"
  shows "binv (s\<lparr>e_next := nx, e_prev := pv\<rparr>) xs'"
  using c r unfolding binv_def st by simp

lemma Get_spec:
  assumes c: "binv s xs"
  shows "map_lookup (c_items s) k = None \<Longrightarrow> Get k now s = Some (None, s)"
    and "map_lookup (c_items s) k = Some a \<Longrightarrow> eof s a < now \<Longrightarrow> Get k now s = Some (None, s)"
    and "map_lookup (c_items s) k = Some a \<Longrightarrow> \<not> eof s a < now \<Longrightarrow>
         \<exists>nx pv. Get k now s = Some (Some (vof s a), s\<lparr>e_next := nx, e_prev := pv\<rparr>)
           \<and> binv (s\<lparr>e_next := nx, e_prev := pv\<rparr>) (a # remove1 a xs)"
proof -
  show "map_lookup (c_items s) k = None \<Longrightarrow> Get k now s = Some (None, s)" by (simp add: Get_def)
  show "map_lookup (c_items s) k = Some a \<Longrightarrow> eof s a < now \<Longrightarrow> Get k now s = Some (None, s)"
    using binv_items[OF c, of k a] by (auto simp: Get_def eof_def)
  assume k: "map_lookup (c_items s) k = Some a" and live: "\<not> eof s a < now"
  from binv_items[OF c k] obtain kv where a: "a \<in> set xs" and kv: "e_Value s a = Some kv" by blast
  from ring_MoveToFront[OF binv_ring[OF c] a] obtain nx pv where
    m: "MoveToFront (c_evictList s) a s = Some (s\<lparr>e_next := nx, e_prev := pv\<rparr>)"
    and r: "is_ring (s\<lparr>e_next := nx, e_prev := pv\<rparr>) (c_evictList s) (a # remove1 a xs)" by blast
  have st: "set (a # remove1 a xs) = set xs" using a binv_distinct[OF c] by auto
  have "Get k now s = Some (Some (vof s a), s\<lparr>e_next := nx, e_prev := pv\<rparr>)"
    using k kv live m by (simp add: Get_def eof_def vof_def)
  then show "\<exists>nx pv. Get k now s = Some (Some (vof s a), s\<lparr>e_next := nx, e_prev := pv\<rparr>)
           \<and> binv (s\<lparr>e_next := nx, e_prev := pv\<rparr>) (a # remove1 a xs)"
    using binv_relink[OF c r st] by blast
qed

lemma Peek_spec:
  assumes c: "binv s xs"
  shows "Peek k now s = Some (case map_lookup (c_items s) k of None \<Rightarrow> None
            | Some a \<Rightarrow> if eof s a < now then None else Some (vof s a), s)"
proof (cases "map_lookup (c_items s) k")
  case None then show ?thesis by (simp add: Peek_def)
next
  case (Some a)
  then show ?thesis using binv_items[OF c Some] by (auto simp: Peek_def eof_def vof_def)
qed

lemma GetOldest_spec:
  assumes c: "binv s xs"
  shows "GetOldest s = Some (if xs = [] then None else Some (kvof s (last xs)), s)"
proof (cases "xs = []")
  case True then show ?thesis using ring_Back[OF binv_ring[OF c]] by (simp add: GetOldest_def)
next
  case False
  then have "last xs \<in> set xs" by simp
  from binv_Value[OF c this] show ?thesis
    using ring_Back[OF binv_ring[OF c]] False by (auto simp: GetOldest_def kvof_def kof_def vof_def)
qed

lemma Remove_spec:
  assumes c: "binv s xs"
  shows "map_lookup (c_items s) k = None \<Longrightarrow> Remove k s = Some (False, s)"
    and "map_lookup (c_items s) k = Some a \<Longrightarrow>
         \<exists>s'. Remove k s = Some (True, s') \<and> binv s' (remove1 a xs) \<and> frame s s'
           \<and> calls s' = calls s @ (if c_onEvicted s then [kvof s a] else [])"
proof -
  show "map_lookup (c_items s) k = None \<Longrightarrow> Remove k s = Some (False, s)" by (simp add: Remove_def)
  assume k: "map_lookup (c_items s) k = Some a"
  then have a: "a \<in> set xs" using binv_items[OF c k] by simp
  from removeElement_frame[OF c a] k
  show "\<exists>s'. Remove k s = Some (True, s') \<and> binv s' (remove1 a xs) \<and> frame s s'
           \<and> calls s' = calls s @ (if c_onEvicted s then [kvof s a] else [])"
    by (auto simp: Remove_def)
qed

lemma RemoveOldest_spec:
  assumes c: "binv s xs"
  shows "\<exists>s'. RemoveOldest s = Some (if xs = [] then None else Some (kvof s (last xs)), s')
           \<and> binv s' (butlast xs) \<and> frame s s'
           \<and> calls s' = calls s @ (if c_onEvicted s \<and> xs \<noteq> [] then [kvof s (last xs)] else [])"
proof (cases "xs = []")
  case True
  then show ?thesis using c ring_Back[OF binv_ring[OF c]] by (simp add: RemoveOldest_def)
next
  case False
  then have l: "last xs \<in> set xs" by simp
  have rm: "remove1 (last xs) xs = butlast xs" using binv_distinct[OF c] False
    by (cases xs rule: rev_cases) (auto simp: remove1_append)
  from binv_Value[OF c l] obtain kv where kv: "e_Value s (last xs) = Some kv" by blast
  from removeElement_frame[OF c l] obtain s' where s': "removeElement (last xs) s = Some s'"
    "binv s' (remove1 (last xs) xs)" "frame s s'"
    "calls s' = calls s @ (if c_onEvicted s then [kvof s (last xs)] else [])" by blast
  have "e_Value s' (last xs) = Some kv" using s'(3) kv by (simp add: frame_def)
  then have "RemoveOldest s = Some (Some (kvof s (last xs)), s')"
    using s'(1) kv ring_Back[OF binv_ring[OF c]] False
    by (simp add: RemoveOldest_def kvof_def kof_def vof_def)
  then show ?thesis using s' False rm by auto
qed

lemma Resize_spec:
  assumes c: "binv s xs" and n: "0 < n"
  shows "\<exists>s'. Resize n s = Some (max (int (length xs) - n) 0, s'\<lparr>c_size := n\<rparr>)
           \<and> binv (s'\<lparr>c_size := n\<rparr>) (take (nat n) xs) \<and> frame s s'
           \<and> calls s' = calls s @ (if c_onEvicted s then map (kvof s) (rev (drop (nat n) xs)) else [])"
proof -
  let ?d = "nat (max (int (length xs) - n) 0)"
  from removeOldest_times_frame[OF c, of ?d] obtain s' where s':
    "removeOldest_times ?d s = Some s'" "binv s' (take (length xs - ?d) xs)" "frame s s'"
    "calls s' = calls s @ (if c_onEvicted s then map (kvof s) (rev (drop (length xs - ?d) xs)) else [])"
    by blast
  have t: "take (length xs - ?d) xs = take (nat n) xs" and d: "drop (length xs - ?d) xs = drop (nat n) xs"
    using n by (auto simp: max_def nat_diff_distrib' intro!: arg_cong2[where f = take] arg_cong2[where f = drop])
  have "binv (s'\<lparr>c_size := n\<rparr>) (take (nat n) xs)" using s'(2) unfolding t by (simp add: binv_def is_ring_def)
  moreover have "Resize n s = Some (max (int (length xs) - n) 0, s'\<lparr>c_size := n\<rparr>)"
    using n s'(1) ring_length[OF binv_ring[OF c]]
    by (auto simp: Resize_def List_Len_def Let_def max_def)
  ultimately show ?thesis using s'(3,4) unfolding d by blast
qed

lemma expired_nodes_subset: "set (expired_nodes clock i ex as) \<subseteq> set as"
  by (induction as arbitrary: i) auto

lemma expired_nodes_distinct: "distinct as \<Longrightarrow> distinct (expired_nodes clock i ex as)"
  using expired_nodes_subset by (induction as arbitrary: i) fastforce+

lemma distinct_remove1_filter: "distinct xs \<Longrightarrow> remove1 a xs = filter (\<lambda>x. x \<noteq> a) xs"
  by (simp add: distinct_remove1_removeAll removeAll_filter_not_eq) metis

lemma deleteExpired_loop_spec:
  assumes "binv s xs" "distinct as" "set as \<subseteq> set xs"
  shows "\<exists>s'. deleteExpired_loop clock i (map (kof s) as) s = Some s'
           \<and> binv s' (filter (\<lambda>a. a \<notin> set (expired_nodes clock i (eof s) as)) xs) \<and> frame s s'
           \<and> calls s' = calls s @ (if c_onEvicted s then map (kvof s) (expired_nodes clock i (eof s) as) else [])"
  using assms
proof (induction as arbitrary: i s xs)
  case Nil
  then show ?case by simp
next
  case (Cons a as)
  note c = Cons.prems(1)
  have a: "a \<in> set xs" using Cons.prems(3) by simp
  from binv_Value[OF c a] obtain kv where kv: "e_Value s a = Some kv" by blast
  have it: "map_lookup (c_items s) (kof s a) = Some a" by (rule binv_items_kof[OF c a])
  have d: "distinct xs" by (rule binv_distinct[OF c])
  show ?case
  proof (cases "eof s a < clock i")
    case True
    from removeElement_frame[OF c a] obtain s1 where s1: "removeElement a s = Some s1"
      "binv s1 (remove1 a xs)" "frame s s1"
      "calls s1 = calls s @ (if c_onEvicted s then [kvof s a] else [])" by blast
    have sub: "set as \<subseteq> set (remove1 a xs)" using Cons.prems(2,3) d by auto
    from Cons.IH[OF s1(2) _ sub, of "Suc i"] Cons.prems(2) obtain s' where s':
      "deleteExpired_loop clock (Suc i) (map (kof s1) as) s1 = Some s'"
      "binv s' (filter (\<lambda>b. b \<notin> set (expired_nodes clock (Suc i) (eof s1) as)) (remove1 a xs))"
      "frame s1 s'"
      "calls s' = calls s1 @ (if c_onEvicted s1 then map (kvof s1) (expired_nodes clock (Suc i) (eof s1) as) else [])"
      by auto
    have eqs: "kof s1 = kof s" "eof s1 = eof s" "kvof s1 = kvof s" "c_onEvicted s1 = c_onEvicted s"
      using frame_kof[OF s1(3)] frame_eof[OF s1(3)] frame_kvof[OF s1(3)] s1(3) by (simp_all add: frame_def)
    have f: "filter (\<lambda>b. b \<notin> set (expired_nodes clock (Suc i) (eof s) as)) (remove1 a xs)
           = filter (\<lambda>b. b \<notin> set (expired_nodes clock i (eof s) (a # as))) xs"
      using True by (simp add: distinct_remove1_filter[OF d] conj_commute)
    have "deleteExpired_loop clock i (map (kof s) (a # as)) s = Some s'"
      using it kv True s1(1) s'(1) eqs by (simp add: eof_def)
    then show ?thesis using s'(2,4) s1(4) frame_trans[OF s1(3) s'(3)] True unfolding eqs f
      by auto
  next
    case False
    from Cons.IH[OF c _ _, of "Suc i"] Cons.prems(2,3) obtain s' where s':
      "deleteExpired_loop clock (Suc i) (map (kof s) as) s = Some s'"
      "binv s' (filter (\<lambda>b. b \<notin> set (expired_nodes clock (Suc i) (eof s) as)) xs)"
      "frame s s'"
      "calls s' = calls s @ (if c_onEvicted s then map (kvof s) (expired_nodes clock (Suc i) (eof s) as) else [])"
      by auto
    have "deleteExpired_loop clock i (map (kof s) (a # as)) s = Some s'"
      using it kv False s'(1) by (simp add: eof_def)
    then show ?thesis using s'(2,3,4) False by auto
  qed
qed

lemma deleteExpired_spec:
  assumes c: "binv s xs"
  shows "\<exists>s'. deleteExpired clock s = Some s'
           \<and> binv s' (filter (\<lambda>a. a \<notin> set (expired_nodes clock 0 (eof s) (rev xs))) xs) \<and> frame s s'
           \<and> calls s' = calls s @ (if c_onEvicted s then map (kvof s) (expired_nodes clock 0 (eof s) (rev xs)) else [])"
  using deleteExpired_loop_spec[OF c, of "rev xs" clock 0] binv_distinct[OF c] binv_keys[OF c]
  by (simp add: deleteExpired_def)

lemma Purge_loop_spec:
  assumes "distinct (map fst es)" and "NaN \<notin> fst ` set es" and "set es \<subseteq> set (c_items s)"
    and "\<forall>e\<in>set es. e_Value s (snd e) \<noteq> None"
  shows "Purge_loop es s = Some (s\<lparr>c_items := filter (\<lambda>e. fst e \<notin> fst ` set es) (c_items s),
           calls := calls s @ (if c_onEvicted s then map (\<lambda>e. (fst e, vof s (snd e))) es else [])\<rparr>)"
  using assms
proof (induction es arbitrary: s)
  case Nil
  then show ?case by simp
next
  case (Cons e es)
  obtain k a where e: "e = (k, a)" by (cases e)
  from Cons.prems(4) e obtain kv where kv: "e_Value s a = Some kv" by auto
  have k: "k \<noteq> NaN" "k \<notin> fst ` set es" "(k, a) \<in> set (c_items s)"
    using Cons.prems(1,2,3) e by auto
  have md: "map_delete (c_items s) k = filter (\<lambda>e. fst e \<noteq> k) (c_items s)"
    using k(1) by (auto simp: map_delete_def key_eq_iff intro: filter_cong)
  let ?s1 = "s\<lparr>calls := calls s @ (if c_onEvicted s then [(k, val kv)] else []),
               c_items := filter (\<lambda>e. fst e \<noteq> k) (c_items s)\<rparr>"
  have st: "Purge_loop (e # es) s = Purge_loop es ?s1"
    using kv k(3) e md by simp
  have sub: "set es \<subseteq> set (c_items ?s1)" using Cons.prems(3) k(2) by (auto simp: image_iff)
  have "Purge_loop es ?s1 = Some (?s1\<lparr>c_items := filter (\<lambda>e. fst e \<notin> fst ` set es) (c_items ?s1),
           calls := calls ?s1 @ (if c_onEvicted ?s1 then map (\<lambda>e. (fst e, vof ?s1 (snd e))) es else [])\<rparr>)"
    by (rule Cons.IH[OF _ _ sub]) (use Cons.prems in auto)
  moreover have "filter (\<lambda>e. fst e \<notin> fst ` set es) (c_items ?s1)
      = filter (\<lambda>e'. fst e' \<notin> fst ` set (e # es)) (c_items s)"
    using e by (auto intro: filter_cong)
  ultimately show ?case unfolding st using kv e by (simp add: vof_def)
qed

lemma Purge_spec:
  assumes c: "binv s xs" and o: "mset es = mset (c_items s)"
  shows "\<exists>s'. Purge es s = Some s' \<and> binv s' [] \<and> frame s s'
           \<and> calls s' = calls s @ (if c_onEvicted s then map (\<lambda>e. (fst e, vof s (snd e))) es else [])"
proof -
  let ?s1 = "s\<lparr>c_items := filter (\<lambda>e. fst e \<notin> fst ` set es) (c_items s),
           calls := calls s @ (if c_onEvicted s then map (\<lambda>e. (fst e, vof s (snd e))) es else [])\<rparr>"
  have se: "set es = set (c_items s)" using o by (rule mset_eq_setD)
  have "mset (map fst es) = mset (map fst (c_items s))" using o by simp
  then have "distinct (map fst es) = distinct (map fst (c_items s))"
    by (rule mset_eq_imp_distinct_iff)
  then have d: "distinct (map fst es)"
    using binv_wf[OF c] by (simp add: wf_items_def)
  have n: "NaN \<notin> fst ` set es" using binv_wf[OF c] se by (simp add: wf_items_def)
  have v: "\<forall>e\<in>set es. e_Value s (snd e) \<noteq> None"
    using se binv_set_items[OF c] binv_Value[OF c] by fastforce
  from Purge_loop_spec[OF d n _ v] se have 1: "Purge es s = Some (Init (c_evictList s) ?s1)"
    by (simp add: Purge_def)
  have e: "c_items ?s1 = []" using se by (auto simp: filter_empty_conv)
  have "c_evictList s < free s" using c by (simp add: binv_def is_ring_def)
  then have "is_ring (Init (c_evictList s) ?s1) (c_evictList s) []" by (intro ring_Init) simp
  then have 2: "binv (Init (c_evictList s) ?s1) []" using e by (simp add: binv_def Init_def)
  show ?thesis using 1 2 by (auto simp: frame_def Init_def)
qed

lemma NewLRU_binv: "binv (NewLRU sz cb t pe h) []"
  by (simp add: NewLRU_def NewList_def new_List_def Init_def Let_def binv_def is_ring_def)

lemma NewLRU_fields:
  "c_size (NewLRU sz cb t pe h) = (if sz < 0 then 0 else sz)"
  "c_ttl (NewLRU sz cb t pe h) = (if t \<le> 0 then noEvictionTTL else t)"
  "c_onEvicted (NewLRU sz cb t pe h) = cb"
  "calls (NewLRU sz cb t pe h) = []"
  "c_items (NewLRU sz cb t pe h) = []"
  by (simp_all add: NewLRU_def NewList_def new_List_def Init_def Let_def)

section \<open>Every call keeps the invariant\<close>

lemma transition_refl: "cinv s xs \<Longrightarrow> transition s xs s xs []"
  by (simp add: transition_def cinv_def)

lemma transition_frame:
  assumes "binv s' xs'" "frame s s'" "distinct rem" "set rem = set xs - set xs'" "set xs' \<subseteq> set xs"
    and "calls s' = calls s @ (if c_onEvicted s then map (kvof s) rem else [])"
    and "0 < c_size s \<longrightarrow> int (length xs') \<le> c_size s"
  shows "transition s xs s' xs' rem"
  using assms frame_kof[OF assms(2)] unfolding transition_def frame_def by auto

lemma transition_relink:
  assumes c: "cinv s xs" and b: "binv (s\<lparr>e_next := nx, e_prev := pv\<rparr>) xs'" and a: "a \<in> set xs"
    and x: "xs' = a # remove1 a xs"
  shows "transition s xs (s\<lparr>e_next := nx, e_prev := pv\<rparr>) xs' []"
proof -
  have d: "distinct xs" using c binv_distinct by (auto simp: cinv_def)
  have "length xs \<noteq> 0" using a by auto
  then have "set xs' = set xs" "length xs' = length xs" using a d x by (auto simp: length_remove1)
  then show ?thesis using b c by (simp add: transition_def cinv_def kof_def)
qed

lemma transition_add:
  assumes c: "cinv s xs" and n: "k \<noteq> NaN"
  shows "\<exists>r s' xs' rem. add k v t now s = Some (r, s') \<and> transition s xs s' xs' rem
           \<and> length rem \<le> 1 \<and> (r \<longleftrightarrow> rem \<noteq> [])"
proof (cases "map_lookup (c_items s) k")
  case None
  have b: "binv s xs" using c by (simp add: cinv_def)
  let ?ev = "0 < c_size s \<and> c_size s < int (length xs) + 1"
  from add_new[OF b None n, of v t now] obtain s' where s':
    "add k v t now s = Some (?ev, s')"
    "binv s' (free s # (if ?ev then butlast xs else xs))"
    "e_Value s' = (e_Value s)(free s \<mapsto> \<lparr>key = k, val = v, expiresAt = now + t\<rparr>)"
    "c_onEvicted s' = c_onEvicted s" "c_evictList s' = c_evictList s" "c_size s' = c_size s"
    "calls s' = calls s @ (if ?ev \<and> c_onEvicted s then [kvof s (last xs)] else [])"
    by blast
  have fr: "free s \<notin> set xs" using binv_fresh[OF b] by simp
  have d: "distinct xs" by (rule binv_distinct[OF b])
  have cap: "0 < c_size s \<longrightarrow> int (length xs) \<le> c_size s" using c by (simp add: cinv_def)
  have kf: "kof s' (free s) = k" and ko: "\<And>a. a \<in> set xs \<Longrightarrow> kof s' a = kof s a"
    using s'(3) fr by (auto simp: kof_def)
  have nk: "k \<notin> fst ` set (c_items s)" using None n by (simp add: map_lookup_None)
  show ?thesis
  proof (cases ?ev)
    case True
    then have ne: "xs \<noteq> []" by auto
    then have sx: "set xs - set (butlast xs) = {last xs}" using d
      by (cases xs rule: rev_cases) auto
    have "transition s xs s' (free s # butlast xs) [last xs]"
      unfolding transition_def using s' True fr sx cap kf ko nk ne
      by (auto dest: in_set_butlastD)
    then have "add k v t now s = Some (True, s') \<and> transition s xs s' (free s # butlast xs) [last xs]
        \<and> length [last xs] \<le> 1 \<and> (True \<longleftrightarrow> [last xs] \<noteq> [])"
      using s'(1) True by simp
    then show ?thesis by blast
  next
    case False
    have "transition s xs s' (free s # xs) []"
      unfolding transition_def using s' False fr cap kf ko nk by auto
    then have "add k v t now s = Some (False, s') \<and> transition s xs s' (free s # xs) []
        \<and> length ([] :: addr list) \<le> 1 \<and> (False \<longleftrightarrow> ([] :: addr list) \<noteq> [])"
      using s'(1) False by simp
    then show ?thesis by blast
  qed
next
  case (Some a)
  have b: "binv s xs" using c by (simp add: cinv_def)
  from add_existing[OF b Some, of v t now] obtain nx pv where s':
    "add k v t now s = Some (False, s\<lparr>e_next := nx, e_prev := pv,
             e_Value := (e_Value s)(a \<mapsto> \<lparr>key = k, val = v, expiresAt = now + t\<rparr>)\<rparr>)"
    "binv (s\<lparr>e_next := nx, e_prev := pv,
             e_Value := (e_Value s)(a \<mapsto> \<lparr>key = k, val = v, expiresAt = now + t\<rparr>)\<rparr>) (a # remove1 a xs)"
    by blast
  let ?s' = "s\<lparr>e_next := nx, e_prev := pv,
             e_Value := (e_Value s)(a \<mapsto> \<lparr>key = k, val = v, expiresAt = now + t\<rparr>)\<rparr>"
  have a: "a \<in> set xs" "kof s a = k" using binv_items_iff[OF b, of k a] Some by auto
  have d: "distinct xs" by (rule binv_distinct[OF b])
  have "length xs \<noteq> 0" using a by auto
  then have "set (a # remove1 a xs) = set xs" "length (a # remove1 a xs) = length xs"
    using a d by (auto simp: length_remove1)
  moreover have "\<And>b. kof ?s' b = kof s b" using a(2) by (simp add: kof_def)
  ultimately have "transition s xs ?s' (a # remove1 a xs) []"
    using s'(2) c by (simp add: transition_def cinv_def)
  then have "add k v t now s = Some (False, ?s') \<and> transition s xs ?s' (a # remove1 a xs) []
        \<and> length ([] :: addr list) \<le> 1 \<and> (False \<longleftrightarrow> ([] :: addr list) \<noteq> [])"
    using s'(1) by simp
  then show ?thesis by blast
qed

lemma transition_Get:
  assumes c: "cinv s xs"
  shows "\<exists>r s' xs' rem. Get k now s = Some (r, s') \<and> transition s xs s' xs' rem"
proof -
  have b: "binv s xs" using c by (simp add: cinv_def)
  consider "map_lookup (c_items s) k = None" | a where "map_lookup (c_items s) k = Some a" "eof s a < now"
    | a where "map_lookup (c_items s) k = Some a" "\<not> eof s a < now" by (cases "map_lookup (c_items s) k") auto
  then show ?thesis
  proof cases
    case 1
    then show ?thesis using Get_spec(1)[OF b] transition_refl[OF c] by blast
  next
    case 2
    then show ?thesis using Get_spec(2)[OF b] transition_refl[OF c] by blast
  next
    case 3
    from Get_spec(3)[OF b 3] obtain nx pv where
      g: "Get k now s = Some (Some (vof s a), s\<lparr>e_next := nx, e_prev := pv\<rparr>)"
      "binv (s\<lparr>e_next := nx, e_prev := pv\<rparr>) (a # remove1 a xs)" by blast
    have "a \<in> set xs" using binv_items[OF b 3(1)] by simp
    from transition_relink[OF c g(2) this refl] g(1) show ?thesis by blast
  qed
qed

lemma transition_Remove:
  assumes c: "cinv s xs"
  shows "\<exists>r s' xs' rem. Remove k s = Some (r, s') \<and> transition s xs s' xs' rem"
proof (cases "map_lookup (c_items s) k")
  case None
  then show ?thesis using Remove_spec(1)[OF _ None] transition_refl[OF c] c by (fastforce simp: cinv_def)
next
  case (Some a)
  have b: "binv s xs" using c by (simp add: cinv_def)
  from Remove_spec(2)[OF b Some] obtain s' where s': "Remove k s = Some (True, s')"
    "binv s' (remove1 a xs)" "frame s s'"
    "calls s' = calls s @ (if c_onEvicted s then [kvof s a] else [])" by blast
  have a: "a \<in> set xs" using binv_items[OF b Some] by simp
  have d: "distinct xs" by (rule binv_distinct[OF b])
  have "transition s xs s' (remove1 a xs) [a]"
    by (rule transition_frame[OF s'(2,3)]) (use a d s'(4) c in \<open>auto simp: cinv_def length_remove1\<close>)
  then show ?thesis using s'(1) by blast
qed

lemma transition_RemoveOldest:
  assumes c: "cinv s xs"
  shows "\<exists>r s' xs' rem. RemoveOldest s = Some (r, s') \<and> transition s xs s' xs' rem"
proof -
  have b: "binv s xs" using c by (simp add: cinv_def)
  from RemoveOldest_spec[OF b] obtain s' where s':
    "RemoveOldest s = Some (if xs = [] then None else Some (kvof s (last xs)), s')"
    "binv s' (butlast xs)" "frame s s'"
    "calls s' = calls s @ (if c_onEvicted s \<and> xs \<noteq> [] then [kvof s (last xs)] else [])" by blast
  have d: "distinct xs" by (rule binv_distinct[OF b])
  have sx: "set xs - set (butlast xs) = set (if xs = [] then [] else [last xs])" using d
    by (cases xs rule: rev_cases) auto
  have "transition s xs s' (butlast xs) (if xs = [] then [] else [last xs])"
    by (rule transition_frame[OF s'(2,3)]) (use sx s'(4) c in \<open>auto simp: cinv_def dest: in_set_butlastD\<close>)
  then show ?thesis using s'(1) by blast
qed

lemma transition_Resize:
  assumes c: "cinv s xs"
  shows "\<exists>r s' xs' rem. Resize n s = Some (r, s') \<and> transition s xs s' xs' rem"
proof (cases "0 < n")
  case False
  then show ?thesis using transition_refl[OF c] by (auto simp: Resize_def)
next
  case True
  have b: "binv s xs" using c by (simp add: cinv_def)
  from Resize_spec[OF b True] obtain s' where s':
    "Resize n s = Some (max (int (length xs) - n) 0, s'\<lparr>c_size := n\<rparr>)"
    "binv (s'\<lparr>c_size := n\<rparr>) (take (nat n) xs)" "frame s s'"
    "calls s' = calls s @ (if c_onEvicted s then map (kvof s) (rev (drop (nat n) xs)) else [])" by blast
  have d: "distinct xs" by (rule binv_distinct[OF b])
  have dd: "distinct (take (nat n) xs @ drop (nat n) xs)" using d by simp
  have sx: "set xs - set (take (nat n) xs) = set (drop (nat n) xs)"
    using dd set_append[of "take (nat n) xs" "drop (nat n) xs"] unfolding distinct_append by auto
  have "transition s xs (s'\<lparr>c_size := n\<rparr>) (take (nat n) xs) (rev (drop (nat n) xs))"
    unfolding transition_def using s'(2,3,4) sx d True frame_kof[OF s'(3)]
    by (auto simp: frame_def kof_def dest: in_set_takeD)
  then show ?thesis using s'(1) by blast
qed

lemma transition_DeleteExpired:
  assumes c: "cinv s xs"
  shows "\<exists>s' xs' rem. DeleteExpired clock s = Some s' \<and> transition s xs s' xs' rem"
proof -
  have b: "binv s xs" using c by (simp add: cinv_def)
  let ?E = "expired_nodes clock 0 (eof s) (rev xs)"
  from deleteExpired_spec[OF b, of clock] obtain s' where s':
    "deleteExpired clock s = Some s'" "binv s' (filter (\<lambda>a. a \<notin> set ?E) xs)" "frame s s'"
    "calls s' = calls s @ (if c_onEvicted s then map (kvof s) ?E else [])" by blast
  have d: "distinct xs" by (rule binv_distinct[OF b])
  have E: "distinct ?E" "set ?E \<subseteq> set xs"
    using expired_nodes_distinct[of "rev xs" clock 0 "eof s"] expired_nodes_subset[of clock 0 "eof s" "rev xs"] d
    by auto
  have le: "length (filter (\<lambda>a. a \<notin> set ?E) xs) \<le> length xs" by simp
  have "transition s xs s' (filter (\<lambda>a. a \<notin> set ?E) xs) ?E"
    by (rule transition_frame[OF s'(2,3) E(1)]) (use E(2) s'(4) c le in \<open>auto simp: cinv_def simp del: length_filter_le\<close>)
  then show ?thesis using s'(1) by (auto simp: DeleteExpired_def)
qed

lemma transition_Purge:
  assumes c: "cinv s xs" and o: "mset es = mset (c_items s)"
  shows "\<exists>s' xs' rem. Purge es s = Some s' \<and> transition s xs s' xs' rem"
proof -
  have b: "binv s xs" using c by (simp add: cinv_def)
  from Purge_spec[OF b o] obtain s' where s': "Purge es s = Some s'" "binv s' []" "frame s s'"
    "calls s' = calls s @ (if c_onEvicted s then map (\<lambda>e. (fst e, vof s (snd e))) es else [])"
    by blast
  let ?rem = "map snd es"
  have se: "set es = (\<lambda>a. (kof s a, a)) ` set xs"
    using mset_eq_setD[OF o] binv_set_items[OF b] by simp
  have "distinct es = distinct (c_items s)" using o by (rule mset_eq_imp_distinct_iff)
  then have de: "distinct es" using wf_items_distinct[OF binv_wf[OF b]] by simp
  have "inj_on snd (set es)" unfolding se by (rule inj_onI) auto
  then have 1: "distinct ?rem" using de by (simp add: distinct_map)
  have 2: "set ?rem = set xs" using se by (simp add: image_image)
  have "\<And>e. e \<in> set es \<Longrightarrow> fst e = kof s (snd e)" using se by auto
  then have 3: "map (kvof s) ?rem = map (\<lambda>e. (fst e, vof s (snd e))) es"
    by (simp add: kvof_def)
  have "transition s xs s' [] ?rem"
    by (rule transition_frame[OF s'(2,3) 1]) (use 2 3 s'(4) in auto)
  then show ?thesis using s'(1) by blast
qed

lemma transition_step:
  assumes c: "cinv s xs" and ad: "admissible cl s" and n: "\<not> adds_NaN cl"
  shows "\<exists>r s' xs' rem. step cl s = Some (r, s') \<and> transition s xs s' xs' rem"
proof -
  have b: "binv s xs" using c by (simp add: cinv_def)
  show ?thesis
  proof (cases cl)
    case (Call_Add k v now)
    then show ?thesis using transition_add[OF c, of k v "c_ttl s" now] n by (fastforce simp: Add_def)
  next
    case (Call_AddWithTTL k v t now)
    then show ?thesis using transition_add[OF c, of k v t now] n by (fastforce simp: AddWithTTL_def)
  next
    case (Call_Get k now)
    then show ?thesis using transition_Get[OF c, of k now] by auto
  next
    case (Call_Peek k now)
    then show ?thesis using Peek_spec[OF b, of k now] transition_refl[OF c] by auto
  next
    case Call_GetOldest
    then show ?thesis using GetOldest_spec[OF b] transition_refl[OF c] by auto
  next
    case (Call_Contains k)
    then show ?thesis using transition_refl[OF c] by auto
  next
    case (Call_Remove k)
    then show ?thesis using transition_Remove[OF c, of k] by auto
  next
    case Call_RemoveOldest
    then show ?thesis using transition_RemoveOldest[OF c] by auto
  next
    case Call_Keys
    then show ?thesis using binv_keys[OF b] transition_refl[OF c] by (auto simp: Keys_def)
  next
    case (Call_Purge ks)
    then show ?thesis using transition_Purge[OF c, of ks] ad by auto
  next
    case (Call_DeleteExpired clock)
    then show ?thesis using transition_DeleteExpired[OF c, of clock] by auto
  next
    case Call_Len
    then show ?thesis using transition_refl[OF c] by auto
  next
    case (Call_Resize n)
    then show ?thesis using transition_Resize[OF c, of n] by auto
  qed
qed

lemma transition_cinv: "transition s xs s' xs' rem \<Longrightarrow> cinv s' xs'"
  by (simp add: transition_def cinv_def)

lemma NewLRU_cinv: "cinv (NewLRU sz cb t pe h) []"
  using NewLRU_binv by (simp add: cinv_def)

lemma reaches_cinv:
  assumes "reaches s0 s" and "\<exists>xs. cinv s0 xs"
  shows "\<exists>xs. cinv s xs"
  using assms
proof (induction rule: reaches.induct)
  case start
  then show ?case by simp
next
  case (call s c r s')
  then obtain xs where "cinv s xs" by blast
  from transition_step[OF this call.hyps(2,3)] call.hyps(4) show ?case by (auto dest: transition_cinv)
qed

lemma call_returns:
  assumes "reaches (NewLRU sz cb t pe h) s" and "admissible c s" and "\<not> adds_NaN c"
  shows "\<exists>r s'. step c s = Some (r, s')"
proof -
  from reaches_cinv[OF assms(1)] NewLRU_cinv obtain xs where "cinv s xs" by blast
  from transition_step[OF this assms(2,3)] show ?thesis by blast
qed

lemma reaches_NewLRU_cinv: "reaches (NewLRU sz cb t pe h) s \<Longrightarrow> \<exists>xs. cinv s xs"
  using reaches_cinv NewLRU_cinv by blast

lemma transition_dom_diff:
  assumes b: "binv s xs" and t: "transition s xs s' xs' rem"
  shows "fst ` set (c_items s) - fst ` set (c_items s') = kof s ` set rem"
proof -
  have b': "binv s' xs'" and r: "set rem = set xs - set xs'"
    and same: "\<And>a. a \<in> set xs \<Longrightarrow> a \<in> set xs' \<Longrightarrow> kof s' a = kof s a"
    and new: "\<And>a. a \<in> set xs' \<Longrightarrow> a \<notin> set xs \<Longrightarrow> kof s' a \<notin> fst ` set (c_items s)"
    using t by (auto simp: transition_def)
  have d: "fst ` set (c_items s) = kof s ` set xs" "fst ` set (c_items s') = kof s' ` set xs'"
    using binv_dom[OF b] binv_dom[OF b'] by auto
  show ?thesis
  proof (intro set_eqI iffI)
    fix k assume "k \<in> fst ` set (c_items s) - fst ` set (c_items s')"
    then obtain a where a: "a \<in> set xs" "k = kof s a" "k \<notin> kof s' ` set xs'" using d by auto
    then have "a \<notin> set xs'" using same by force
    then show "k \<in> kof s ` set rem" using a r by auto
  next
    fix k assume "k \<in> kof s ` set rem"
    then obtain a where a: "a \<in> set xs" "a \<notin> set xs'" "k = kof s a" using r by auto
    have "k \<notin> kof s' ` set xs'"
    proof
      assume "k \<in> kof s' ` set xs'"
      then obtain b where bb: "b \<in> set xs'" "kof s' b = k" by auto
      show False
      proof (cases "b \<in> set xs")
        case True
        then have "kof s b = kof s a" using same[OF True bb(1)] bb(2) a(3) by simp
        then have "b = a" using binv_inj[OF b] True a(1) by (auto dest: inj_onD)
        then show False using bb(1) a(2) by simp
      next
        case False
        then show False using new[OF bb(1) False] bb(2) a d by auto
      qed
    qed
    then show "k \<in> fst ` set (c_items s) - fst ` set (c_items s')" using a d by auto
  qed
qed

lemma reaches_size_pos:
  assumes "reaches s0 s" and "cinv s0 xs0" and "0 < c_size s0"
  shows "0 < c_size s"
proof -
  have "(\<exists>xs. cinv s xs) \<and> 0 < c_size s"
    using assms
  proof (induction rule: reaches.induct)
    case start
    then show ?case by blast
  next
    case (call s c r s')
    then obtain xs where "cinv s xs" "0 < c_size s" by blast
    from transition_step[OF this(1) call.hyps(2,3)] call.hyps(4) this(2) show ?case
      by (auto simp: transition_def cinv_def)
  qed
  then show ?thesis by simp
qed

section \<open>The map and the list are in bijection\<close>

lemma elements_loop_None [simp]: "elements_loop None es h = Some es"
  by (subst elements_loop.simps) simp

lemma elements_loop_Some: "elements_loop (Some a) es h = elements_loop (Next a h) (es @ [a]) h"
  by (subst elements_loop.simps) simp

lemma elements_loop_ring:
  "is_ring h l (ys @ e # zs) \<Longrightarrow> elements_loop (Some e) es h = Some (es @ e # zs)"
proof (induction zs arbitrary: e ys es)
  case Nil
  then show ?case using ring_Next[of h l ys e "[]"] by (simp add: elements_loop_Some)
next
  case (Cons z zs)
  have "is_ring h l ((ys @ [e]) @ z # zs)" using Cons.prems by simp
  from Cons.IH[OF this, of "es @ [e]"] show ?case
    using ring_Next[OF Cons.prems] by (simp add: elements_loop_Some)
qed

lemma ring_elements: "is_ring h l xs \<Longrightarrow> elements l h = Some xs"
proof (cases xs)
  case Nil
  assume "is_ring h l xs"
  then show ?thesis using Nil ring_Front[of h l xs] by (simp add: elements_def)
next
  case (Cons x xs')
  assume r: "is_ring h l xs"
  then have "elements_loop (Some x) [] h = Some ([] @ x # xs')"
    using Cons elements_loop_ring[of h l "[]" x xs' "[]"] by simp
  then show ?thesis using Cons ring_Front[OF r] by (simp add: elements_def)
qed

text \<open>
  C1, amended. In every state that a freshly constructed cache reaches by calls of its
  methods that add only keys equal to themselves, the traversal of the eviction list ends,
  the keys of the entries it visits are the keys of the map, no key occurs twice in the
  list or in the map, the map finds each of its entries, it sends a key to an element
  exactly when that element is in the list and its entry has the key, so that element is
  the only one with the key, and \<^verbatim>\<open>Len\<close> is the number of elements, of keys and of map
  entries.
\<close>

theorem bijection_invariant:
  assumes "reaches (NewLRU sz cb t pe h) s"
  shows "\<exists>es ks. elements (c_evictList s) s = Some es \<and> keys s = Some ks
           \<and> set ks = fst ` set (c_items s) \<and> distinct ks \<and> distinct (map fst (c_items s))
           \<and> (\<forall>a\<in>set es. \<exists>kv. e_Value s a = Some kv \<and> key kv \<in> set ks)
           \<and> (\<forall>k a. (k, a) \<in> set (c_items s) \<longleftrightarrow> map_lookup (c_items s) k = Some a)
           \<and> (\<forall>k a. map_lookup (c_items s) k = Some a \<longleftrightarrow>
                 a \<in> set es \<and> (\<exists>kv. e_Value s a = Some kv \<and> key kv = k))
           \<and> (\<forall>a\<in>set es. \<forall>b\<in>set es. \<forall>kv kv'.
                 e_Value s a = Some kv \<and> e_Value s b = Some kv' \<and> key kv = key kv' \<longrightarrow> a = b)
           \<and> distinct es
           \<and> Len s = int (length es) \<and> Len s = int (length ks)
           \<and> Len s = int (length (c_items s))"
proof -
  from reaches_NewLRU_cinv[OF assms] obtain xs where "cinv s xs" by blast
  then have b: "binv s xs" by (simp add: cinv_def)
  let ?ks = "map (kof s) (rev xs)"
  have it: "\<And>k a. map_lookup (c_items s) k = Some a \<longleftrightarrow> a \<in> set xs \<and> (\<exists>kv. e_Value s a = Some kv \<and> key kv = k)"
    using binv_Value[OF b] binv_items[OF b] by fastforce
  have mem: "\<forall>k a. (k, a) \<in> set (c_items s) \<longleftrightarrow> map_lookup (c_items s) k = Some a"
    using wf_items_lookup[OF binv_wf[OF b]] by simp
  have "elements (c_evictList s) s = Some xs" by (rule ring_elements[OF binv_ring[OF b]])
  moreover have "keys s = Some ?ks" by (rule binv_keys[OF b])
  moreover have "set ?ks = fst ` set (c_items s)" using binv_dom[OF b] by simp
  moreover have "distinct ?ks" using binv_distinct_keys[OF b] by (simp add: rev_map[symmetric])
  moreover have "distinct (map fst (c_items s))" using binv_wf[OF b] by (simp add: wf_items_def)
  moreover have "\<forall>a\<in>set xs. \<exists>kv. e_Value s a = Some kv \<and> key kv \<in> set ?ks"
    using binv_Value[OF b] by (force simp: kof_def)
  moreover have "\<forall>a\<in>set xs. \<forall>b\<in>set xs. \<forall>kv kv'.
                 e_Value s a = Some kv \<and> e_Value s b = Some kv' \<and> key kv = key kv' \<longrightarrow> a = b"
    using it by (metis option.inject)
  moreover have "distinct xs" by (rule binv_distinct[OF b])
  moreover have "Len s = int (length xs)" by (rule binv_Len[OF b])
  moreover have "Len s = int (length ?ks)" using binv_Len[OF b] by simp
  moreover have "Len s = int (length (c_items s))" using binv_Len[OF b] binv_card[OF b] by simp
  ultimately show ?thesis using it mem by blast
qed

lemmas eval_defs = NewLRU_def empty_heap_def NewList_def new_List_def Init_def Add_def add_def
   PushFront_def lazyInit_def insertValue_def new_Element_def insert_at_def Let_def noEvictionTTL_def
   removeOldest_def removeElement_def Back_def List_Remove_def remove_def MoveToFront_def move_def
   AddWithTTL_def Get_def Peek_def run_calls_def
   map_lookup_def map_assign_def map_delete_def

section \<open>Example runs\<close>

lemma demo1_step: "step (Call_Add (Key 1) 10 0) demo0 = Some (Ret_bool False, demo1)"
  by (simp add: demo1_def demo0_def eval_defs)

lemma demo2_step: "step (Call_Add (Key 2) 20 1) demo1 = Some (Ret_bool False, demo2)"
  by (simp add: demo2_def demo1_def demo0_def eval_defs)

lemma demo3_step: "step (Call_Add (Key 3) 30 2) demo2 = Some (Ret_bool True, demo3)"
  by (simp add: demo3_def demo2_def demo1_def demo0_def eval_defs)

lemma demo1_reaches: "reaches demo0 demo1"
  by (rule reaches.call[OF reaches.start _ _ demo1_step]) simp_all

lemma demo2_reaches: "reaches demo0 demo2"
  by (rule reaches.call[OF demo1_reaches _ _ demo2_step]) simp_all

lemma demo3_reaches: "reaches demo0 demo3"
  by (rule reaches.call[OF demo2_reaches _ _ demo3_step]) simp_all

lemma demo2_keys: "keys demo2 = Some [Key 1, Key 2]"
  by (simp add: demo2_def demo1_def demo0_def eval_defs keys_def keys_loop_Some Prev_def)

lemma demo3_keys: "keys demo3 = Some [Key 2, Key 3]"
  by (simp add: demo3_def demo2_def demo1_def demo0_def eval_defs keys_def keys_loop_Some Prev_def)

lemmas nan_defs = nan_run4_def nan_run3_def nan_run2_def nan_run1_def nan_run0_def
  RemoveOldest_def Purge_def keys_def keys_loop_Some Prev_def Len_def List_Len_def

text \<open>
  C1 as stated fails for a key that is not equal to itself. \<^verbatim>\<open>Add\<close> of such a key and then
  \<^verbatim>\<open>RemoveOldest\<close> return and leave a cache whose list is empty, \<^verbatim>\<open>Len\<close> is 0 and \<^verbatim>\<open>keys\<close>
  is empty, while the map still has the entry of the key: \<^verbatim>\<open>delete\<close> has not removed it.
  Before the removal the list holds the key and the map has an entry for it, which the
  map does not find.
\<close>

theorem bijection_fails_for_NaN:
  "step (Call_Add NaN 1 0) nan_run0 = Some (Ret_bool False, nan_run1)
    \<and> keys nan_run1 = Some [NaN] \<and> c_items nan_run1 = [(NaN, 1)]
    \<and> map_lookup (c_items nan_run1) NaN = None
    \<and> step Call_RemoveOldest nan_run1 = Some (Ret_entry (Some (NaN, 1)), nan_run2)
    \<and> keys nan_run2 = Some [] \<and> Len nan_run2 = 0
    \<and> c_items nan_run2 = [(NaN, 1)] \<and> length (c_items nan_run2) = 1
    \<and> Len nan_run2 \<noteq> int (length (c_items nan_run2))"
  by (simp add: nan_defs eval_defs)

theorem bijection_invariant_witness:
  "reaches (NewLRU 2 True 0 0 empty_heap) demo3
    \<and> (\<exists>es ks. elements (c_evictList demo3) demo3 = Some es \<and> keys demo3 = Some ks
           \<and> set ks = fst ` set (c_items demo3) \<and> distinct ks \<and> distinct (map fst (c_items demo3))
           \<and> (\<forall>a\<in>set es. \<exists>kv. e_Value demo3 a = Some kv \<and> key kv \<in> set ks)
           \<and> (\<forall>k a. (k, a) \<in> set (c_items demo3) \<longleftrightarrow> map_lookup (c_items demo3) k = Some a)
           \<and> (\<forall>k a. map_lookup (c_items demo3) k = Some a \<longleftrightarrow>
                 a \<in> set es \<and> (\<exists>kv. e_Value demo3 a = Some kv \<and> key kv = k))
           \<and> (\<forall>a\<in>set es. \<forall>b\<in>set es. \<forall>kv kv'.
                 e_Value demo3 a = Some kv \<and> e_Value demo3 b = Some kv' \<and> key kv = key kv' \<longrightarrow> a = b)
           \<and> distinct es
           \<and> Len demo3 = int (length es) \<and> Len demo3 = int (length ks)
           \<and> Len demo3 = int (length (c_items demo3)))"
proof -
  have r: "reaches (NewLRU 2 True 0 0 empty_heap) demo3"
    using demo3_reaches by (simp add: demo0_def)
  show ?thesis using r bijection_invariant [OF r] by simp
qed

section \<open>Handles that do not belong to the list\<close>

text \<open>
  C9. For every list \<open>l\<close> and every element \<open>e\<close> whose list back-reference is not \<open>l\<close>
  (nil, or another list), \<^verbatim>\<open>Remove\<close>, \<^verbatim>\<open>MoveToFront\<close>, \<^verbatim>\<open>MoveToBack\<close>, \<^verbatim>\<open>MoveBefore\<close>,
  \<^verbatim>\<open>MoveAfter\<close>, \<^verbatim>\<open>InsertBefore\<close> and \<^verbatim>\<open>InsertAfter\<close> called on \<open>l\<close> with \<open>e\<close> as the
  element or as the mark return normally and leave the whole store, hence the elements,
  the order and the length of \<open>l\<close>, as it was. \<^verbatim>\<open>Remove\<close> returns the value of \<open>e\<close>
  and the two insertions return nil.
\<close>

theorem foreign_element_is_noop:
  assumes "e_list h e \<noteq> Some l"
  shows "List_Remove l e h = Some (e_Value h e, h)
    \<and> MoveToFront l e h = Some h
    \<and> MoveToBack l e h = Some h
    \<and> MoveBefore l e m h = Some h
    \<and> MoveBefore l m e h = Some h
    \<and> MoveAfter l e m h = Some h
    \<and> MoveAfter l m e h = Some h
    \<and> InsertBefore l v e h = Some (None, h)
    \<and> InsertAfter l v e h = Some (None, h)"
  using assms
  by (simp add: List_Remove_def MoveToFront_def MoveToBack_def MoveBefore_def
      MoveAfter_def InsertBefore_def InsertAfter_def)

lemma two_lists_foreign: "e_list two_lists 2 = Some 1"
  by (simp add: two_lists_def empty_heap_def NewList_def new_List_def Init_def PushFront_def
      lazyInit_def insertValue_def new_Element_def insert_at_def Let_def)

theorem foreign_element_is_noop_witness:
  "e_list two_lists 2 \<noteq> Some 0
    \<and> List_Remove 0 2 two_lists = Some (e_Value two_lists 2, two_lists)
    \<and> MoveToFront 0 2 two_lists = Some two_lists
    \<and> MoveToBack 0 2 two_lists = Some two_lists
    \<and> MoveBefore 0 2 0 two_lists = Some two_lists
    \<and> MoveBefore 0 0 2 two_lists = Some two_lists
    \<and> MoveAfter 0 2 0 two_lists = Some two_lists
    \<and> MoveAfter 0 0 2 two_lists = Some two_lists
    \<and> InsertBefore 0 None 2 two_lists = Some (None, two_lists)
    \<and> InsertAfter 0 None 2 two_lists = Some (None, two_lists)"
proof -
  have h: "e_list two_lists 2 \<noteq> Some 0" by (simp add: two_lists_foreign)
  show ?thesis using h foreign_element_is_noop [OF h, of 0 None] by simp
qed

section \<open>Capacity\<close>

lemma add_capacity:
  assumes c: "cinv s xs" and p: "0 < c_size s" and n: "k \<noteq> NaN"
  shows "\<exists>ev s'. add k v t now s = Some (ev, s')
           \<and> Len s' \<le> c_size s' \<and> int (length (c_items s')) \<le> c_size s' \<and> 0 < c_size s'
           \<and> card (fst ` set (c_items s) - fst ` set (c_items s')) \<le> 1
           \<and> (ev \<longleftrightarrow> fst ` set (c_items s) - fst ` set (c_items s') \<noteq> {})"
proof -
  have b: "binv s xs" using c by (simp add: cinv_def)
  from transition_add[OF c n, of v t now] obtain ev s' xs' rem where s':
    "add k v t now s = Some (ev, s')" "transition s xs s' xs' rem" "length rem \<le> 1" "ev \<longleftrightarrow> rem \<noteq> []"
    by blast
  have b': "binv s' xs'" and cap: "int (length xs') \<le> c_size s'" "0 < c_size s'"
    using s'(2) p by (auto simp: transition_def)
  have dd: "fst ` set (c_items s) - fst ` set (c_items s') = kof s ` set rem"
    by (rule transition_dom_diff[OF b s'(2)])
  have "card (kof s ` set rem) \<le> card (set rem)" by (rule card_image_le) simp
  also have "\<dots> \<le> length rem" by (rule card_length)
  finally have "card (fst ` set (c_items s) - fst ` set (c_items s')) \<le> 1" using s'(3) dd by simp
  moreover have "ev \<longleftrightarrow> fst ` set (c_items s) - fst ` set (c_items s') \<noteq> {}" using s'(4) dd by simp
  ultimately show ?thesis
    using s'(1) cap binv_Len[OF b'] binv_card[OF b'] by auto
qed

text \<open>
  C2 as stated fails for a key that is not equal to itself. On a cache of capacity 1, the
  second \<^verbatim>\<open>Add\<close> of such a key returns true and evicts the element of the first: the list
  has one element, and the map has two entries, one more than the capacity, because
  \<^verbatim>\<open>delete\<close> has not removed the entry of the evicted element.
\<close>

theorem capacity_fails_for_NaN:
  "c_size nan_run0 = 1 \<and> Add NaN 1 0 nan_run0 = Some (False, nan_run1)
    \<and> Add NaN 2 1 nan_run1 = Some (True, nan_run4)
    \<and> c_size nan_run4 = 1 \<and> Len nan_run4 = 1 \<and> keys nan_run4 = Some [NaN]
    \<and> c_items nan_run4 = [(NaN, 1), (NaN, 2)] \<and> length (c_items nan_run4) = 2
    \<and> \<not> int (length (c_items nan_run4)) \<le> c_size nan_run4"
  by (simp add: nan_defs eval_defs)

text \<open>
  C2, amended. In every state that a cache constructed with a capacity above 0 reaches by
  calls that add only keys equal to themselves, \<^verbatim>\<open>Add\<close> and \<^verbatim>\<open>AddWithTTL\<close> of such a key
  return, and right after the call the length of the list and the number of entries of
  the map are at most the capacity; at most one key leaves the map, and the result is
  true exactly when one does.
\<close>

theorem capacity_invariant:
  assumes "0 < sz" and "reaches (NewLRU sz cb t0 pe h) s" and "k \<noteq> NaN"
  shows "\<forall>res \<in> {Add k v now s, AddWithTTL k v t now s}.
           \<exists>evicted s'. res = Some (evicted, s')
             \<and> Len s' \<le> c_size s' \<and> int (length (c_items s')) \<le> c_size s' \<and> 0 < c_size s'
             \<and> card (fst ` set (c_items s) - fst ` set (c_items s')) \<le> 1
             \<and> (evicted \<longleftrightarrow> fst ` set (c_items s) - fst ` set (c_items s') \<noteq> {})"
proof -
  from reaches_NewLRU_cinv[OF assms(2)] obtain xs where c: "cinv s xs" by blast
  have "0 < c_size (NewLRU sz cb t0 pe h)" using assms(1) by (simp add: NewLRU_fields)
  from reaches_size_pos[OF assms(2) NewLRU_cinv this] have p: "0 < c_size s" .
  show ?thesis using add_capacity[OF c p assms(3)] by (simp add: Add_def AddWithTTL_def)
qed

theorem capacity_invariant_witness:
  "(0::int) < 2 \<and> reaches (NewLRU 2 True 0 0 empty_heap) demo2 \<and> Key (3::nat) \<noteq> NaN
    \<and> (\<exists>evicted s'. Add (Key 3) 30 2 demo2 = Some (evicted, s')
             \<and> Len s' \<le> c_size s' \<and> int (length (c_items s')) \<le> c_size s' \<and> 0 < c_size s'
             \<and> card (fst ` set (c_items demo2) - fst ` set (c_items s')) \<le> 1
             \<and> (evicted \<longleftrightarrow> fst ` set (c_items demo2) - fst ` set (c_items s') \<noteq> {}))
    \<and> (\<exists>evicted s'. AddWithTTL (Key 3) 30 5 2 demo2 = Some (evicted, s')
             \<and> Len s' \<le> c_size s' \<and> int (length (c_items s')) \<le> c_size s' \<and> 0 < c_size s'
             \<and> card (fst ` set (c_items demo2) - fst ` set (c_items s')) \<le> 1
             \<and> (evicted \<longleftrightarrow> fst ` set (c_items demo2) - fst ` set (c_items s') \<noteq> {}))
    \<and> Add (Key 3) 30 2 demo2 = Some (True, demo3) \<and> Len demo3 = 2 \<and> c_size demo3 = 2
    \<and> length (c_items demo3) = 2"
proof -
  have r: "reaches (NewLRU 2 True 0 0 empty_heap) demo2"
    using demo2_reaches by (simp add: demo0_def)
  have p: "(0::int) < 2" by simp
  have n: "Key (3::nat) \<noteq> NaN" by simp
  have e: "Add (Key 3) 30 2 demo2 = Some (True, demo3) \<and> Len demo3 = 2 \<and> c_size demo3 = 2
    \<and> length (c_items demo3) = 2"
    by (simp add: demo3_def demo2_def demo1_def demo0_def eval_defs Len_def List_Len_def)
  have "\<forall>res \<in> {Add (Key 3) 30 2 demo2, AddWithTTL (Key 3) 30 5 2 demo2}.
           \<exists>evicted s'. res = Some (evicted, s')
             \<and> Len s' \<le> c_size s' \<and> int (length (c_items s')) \<le> c_size s' \<and> 0 < c_size s'
             \<and> card (fst ` set (c_items demo2) - fst ` set (c_items s')) \<le> 1
             \<and> (evicted \<longleftrightarrow> fst ` set (c_items demo2) - fst ` set (c_items s') \<noteq> {})"
    by (rule capacity_invariant [OF p r n])
  then show ?thesis using r e p n by blast
qed

section \<open>Entries by key\<close>

lemma binv_entry: "binv s xs \<Longrightarrow> a \<in> set xs \<Longrightarrow> entry (kof s a) s = e_Value s a"
  by (simp add: entry_def binv_items_kof)

lemma binv_entry_Some:
  "binv s xs \<Longrightarrow> a \<in> set xs \<Longrightarrow>
     entry (kof s a) s = Some \<lparr>key = kof s a, val = vof s a, expiresAt = eof s a\<rparr>"
  using binv_Value[of s xs a] by (auto simp: entry_def kof_def vof_def eof_def)

lemma binv_entry_None: "binv s xs \<Longrightarrow> k \<notin> kof s ` set xs \<Longrightarrow> entry k s = None"
  using binv_items_iff[of s xs k] by (auto simp: entry_def split: option.splits)

lemma binv_is_expired: "binv s xs \<Longrightarrow> a \<in> set xs \<Longrightarrow> is_expired now (kof s a) s = (eof s a < now)"
  by (simp add: is_expired_def binv_entry_Some)

lemma binv_evicted_args:
  "binv s xs \<Longrightarrow> set as \<subseteq> set xs \<Longrightarrow> evicted_args s (map (kof s) as) = map (kvof s) as"
proof (induction as)
  case Nil
  then show ?case by (simp add: evicted_args_def map_filter_simps)
next
  case (Cons a as)
  then show ?case
    using binv_entry_Some[of s xs a] by (simp add: evicted_args_def map_filter_simps kvof_def)
qed

lemma binv_filter_keys:
  assumes b: "binv s xs" and as: "set as \<subseteq> set xs" and P: "\<And>a. a \<in> set xs \<Longrightarrow> Q (kof s a) = P a"
  shows "filter Q (map (kof s) as) = map (kof s) (filter P as)"
  using as P by (induction as) auto

lemma binv_remove_key:
  assumes b: "binv s xs" and a: "a \<in> set xs" and as: "set as \<subseteq> set xs"
  shows "filter (\<lambda>k. k \<noteq> kof s a) (map (kof s) as) = map (kof s) (filter (\<lambda>b. b \<noteq> a) as)"
proof (rule binv_filter_keys[OF b as])
  fix c assume "c \<in> set xs"
  then show "(kof s c \<noteq> kof s a) = (c \<noteq> a)" using binv_inj[OF b] a by (auto dest: inj_onD)
qed

lemma binv_entry_sub:
  assumes b: "binv s xs" and b': "binv s' xs'" and f: "frame s s'" and sub: "set xs' \<subseteq> set xs"
  shows "entry k s' = (if k \<in> kof s ` set xs' then entry k s else None)"
proof (cases "k \<in> kof s ` set xs'")
  case True
  then obtain a where a: "a \<in> set xs'" "k = kof s a" by auto
  have "e_Value s' = e_Value s" "kof s' = kof s" using f frame_kof[OF f] by (simp_all add: frame_def)
  then show ?thesis using binv_entry[OF b' a(1)] binv_entry[OF b, of a] a sub True by auto
next
  case False
  then show ?thesis using binv_entry_None[OF b'] frame_kof[OF f] by simp
qed

section \<open>Order of eviction\<close>

lemmas keys_eval = keys_def keys_loop_Some Prev_def Contains_def

lemma Get_order:
  assumes b: "binv s xs" and ks: "keys s = Some ks"
  shows "\<exists>r s'. Get k now s = Some (r, s')
           \<and> (r \<noteq> None \<longleftrightarrow> (\<exists>kv. entry k s = Some kv \<and> \<not> expiresAt kv < now))
           \<and> (r \<noteq> None \<longrightarrow>
                 r = map_option val (entry k s)
                 \<and> keys s' = Some (filter (\<lambda>x. x \<noteq> k) ks @ [k])
                 \<and> (\<forall>x. entry x s' = entry x s) \<and> Len s' = Len s \<and> calls s' = calls s
                 \<and> c_size s' = c_size s)
           \<and> (r = None \<longrightarrow> s' = s)"
proof -
  have kss: "ks = map (kof s) (rev xs)" using binv_keys[OF b] ks by simp
  consider "map_lookup (c_items s) k = None"
    | a where "map_lookup (c_items s) k = Some a" "eof s a < now"
    | a where "map_lookup (c_items s) k = Some a" "\<not> eof s a < now"
    by (cases "map_lookup (c_items s) k") auto
  then show ?thesis
  proof cases
    case 1
    then have "Get k now s = Some (None, s)" "entry k s = None"
      using Get_spec(1)[OF b] by (simp_all add: entry_def)
    then show ?thesis by simp
  next
    case 2
    then have a: "a \<in> set xs" "kof s a = k" using binv_items_iff[OF b, of k a] by auto
    have "entry k s = Some \<lparr>key = kof s a, val = vof s a, expiresAt = eof s a\<rparr>"
      using binv_entry_Some[OF b a(1)] a(2) by simp
    moreover have "Get k now s = Some (None, s)" using Get_spec(2)[OF b 2] .
    ultimately show ?thesis using 2(2) by simp
  next
    case 3
    then have a: "a \<in> set xs" "kof s a = k" using binv_items_iff[OF b, of k a] by auto
    have en: "entry k s = Some \<lparr>key = kof s a, val = vof s a, expiresAt = eof s a\<rparr>"
      using binv_entry_Some[OF b a(1)] a(2) by simp
    from Get_spec(3)[OF b 3] obtain nx pv where g:
      "Get k now s = Some (Some (vof s a), s\<lparr>e_next := nx, e_prev := pv\<rparr>)"
      "binv (s\<lparr>e_next := nx, e_prev := pv\<rparr>) (a # remove1 a xs)" by blast
    let ?s' = "s\<lparr>e_next := nx, e_prev := pv\<rparr>"
    have d: "distinct xs" by (rule binv_distinct[OF b])
    have kk: "kof ?s' = kof s" by (auto simp: kof_def fun_eq_iff)
    have "filter (\<lambda>x. x \<noteq> k) (map (kof s) (rev xs)) = map (kof s) (filter (\<lambda>b. b \<noteq> a) (rev xs))"
      using binv_remove_key[OF b a(1), of "rev xs"] a(2) by simp
    also have "\<dots> = map (kof s) (rev (remove1 a xs))"
      by (simp add: distinct_remove1_filter[OF d] rev_filter)
    finally have e1: "keys ?s' = Some (filter (\<lambda>x. x \<noteq> k) ks @ [k])"
      using binv_keys[OF g(2)] a(2) unfolding kk kss by simp
    have "length xs \<noteq> 0" using a(1) by auto
    then have e2: "Len ?s' = Len s" using binv_Len[OF g(2)] binv_Len[OF b] a(1)
      by (simp add: length_remove1)
    have e3: "\<forall>x. entry x ?s' = entry x s" by (simp add: entry_def split: option.splits)
    show ?thesis using g(1) en 3(2) e1 e2 e3 by simp
  qed
qed

lemma add_order:
  assumes b: "binv s xs" and ks: "keys s = Some ks" and n: "k \<noteq> NaN" and c: "\<not> Contains k s"
  shows "\<exists>ev s'. add k v t now s = Some (ev, s')
           \<and> (ev \<longleftrightarrow> 0 < c_size s \<and> c_size s \<le> int (length ks))
           \<and> keys s' = Some ((if ev then tl ks else ks) @ [k])
           \<and> (ev \<longrightarrow> ks \<noteq> [] \<and> \<not> Contains (hd ks) s'
                 \<and> (\<exists>v0. GetOldest s = Some (Some (hd ks, v0), s)
                       \<and> calls s' = calls s @ (if c_onEvicted s then [(hd ks, v0)] else [])))
           \<and> (\<not> ev \<longrightarrow> calls s' = calls s)"
proof -
  have kss: "ks = map (kof s) (rev xs)" using binv_keys[OF b] ks by simp
  have None: "map_lookup (c_items s) k = None" using c by (simp add: Contains_def)
  let ?ev = "0 < c_size s \<and> c_size s < int (length xs) + 1"
  let ?ys = "if ?ev then butlast xs else xs"
  from add_new[OF b None n, of v t now] obtain s' where s':
    "add k v t now s = Some (?ev, s')"
    "binv s' (free s # ?ys)"
    "e_Value s' = (e_Value s)(free s \<mapsto> \<lparr>key = k, val = v, expiresAt = now + t\<rparr>)"
    "calls s' = calls s @ (if ?ev \<and> c_onEvicted s then [kvof s (last xs)] else [])"
    by blast
  have fr: "free s \<notin> set xs" using binv_fresh[OF b] by simp
  have d: "distinct xs" by (rule binv_distinct[OF b])
  have kf: "kof s' (free s) = k" and ko: "\<And>a. a \<in> set xs \<Longrightarrow> kof s' a = kof s a"
    using s'(3) fr by (auto simp: kof_def)
  have sub: "set ?ys \<subseteq> set xs" by (auto dest: in_set_butlastD)
  then have "map (kof s') (rev ?ys) = map (kof s) (rev ?ys)" using ko by auto
  also have "\<dots> = (if ?ev then tl ks else ks)"
    unfolding kss by (cases xs rule: rev_cases) (auto simp: map_tl)
  finally have 1: "keys s' = Some ((if ?ev then tl ks else ks) @ [k])"
    using binv_keys[OF s'(2)] kf by simp
  have 2: "?ev \<longleftrightarrow> 0 < c_size s \<and> c_size s \<le> int (length ks)" unfolding kss by auto
  have 3: "ks \<noteq> [] \<and> \<not> Contains (hd ks) s'
                 \<and> (\<exists>v0. GetOldest s = Some (Some (hd ks, v0), s)
                       \<and> calls s' = calls s @ (if c_onEvicted s then [(hd ks, v0)] else []))"
    if ev: ?ev
  proof -
    have ne: "xs \<noteq> []" using ev by auto
    then have l: "last xs \<in> set xs" by simp
    have h: "hd ks = kof s (last xs)" unfolding kss using ne by (simp add: hd_map hd_rev)
    have "map_lookup (c_items s') (hd ks) = None"
    proof (rule ccontr)
      assume "map_lookup (c_items s') (hd ks) \<noteq> None"
      then obtain a where a: "map_lookup (c_items s') (hd ks) = Some a" by auto
      then have ax: "a \<in> set (free s # butlast xs)" "kof s' a = hd ks"
        using binv_items_iff[OF s'(2), of "hd ks" a] ev by auto
      show False
      proof (cases "a = free s")
        case True
        then have "k = kof s (last xs)" using ax(2) kf h by simp
        then show False using binv_items_kof[OF b l] None by simp
      next
        case False
        then have ab: "a \<in> set (butlast xs)" using ax(1) by simp
        then have "a \<in> set xs" by (auto dest: in_set_butlastD)
        then have "kof s a = kof s (last xs)" using ko ax(2) h by simp
        then have "a = last xs" using binv_inj[OF b] \<open>a \<in> set xs\<close> l by (auto dest: inj_onD)
        then show False using ab d ne by (cases xs rule: rev_cases) auto
      qed
    qed
    then have "\<not> Contains (hd ks) s'" by (simp add: Contains_def)
    moreover have "GetOldest s = Some (Some (hd ks, vof s (last xs)), s)"
      using GetOldest_spec[OF b] ne h by (simp add: kvof_def)
    moreover have "calls s' = calls s @ (if c_onEvicted s then [(hd ks, vof s (last xs))] else [])"
      using s'(4) ev h by (simp add: kvof_def)
    ultimately show ?thesis using ne kss by auto
  qed
  have 4: "\<not> ?ev \<Longrightarrow> calls s' = calls s" using s'(4) by auto
  show ?thesis using s'(1) 1 2 3 4 by (intro exI[of _ ?ev] exI[of _ s']) auto
qed

text \<open>
  C3. A cache of capacity 2 and three distinct keys A, B, C that are equal to themselves.
  After \<^verbatim>\<open>Add\<close> of A and of B, \<^verbatim>\<open>Add\<close> of C returns true and evicts A: the keys are then
  B, C from oldest to newest and the callback, when set, was called once, with A. If a
  \<^verbatim>\<open>Get\<close> of A comes before the \<^verbatim>\<open>Add\<close> of C, at a time when A has not expired, it finds A
  and makes it the newest key, and \<^verbatim>\<open>Add\<close> of C evicts B instead: the keys are then A, C.

  In general, in every state \<open>s\<close> that a cache reaches, with \<open>ks\<close> its keys from oldest to
  newest: \<^verbatim>\<open>Get\<close> of any key returns; it finds the key exactly when the key has an entry
  that has not expired, and then the key becomes the newest one, the other keys keep
  their order, and entries, length, capacity and callback trace are as before; when it
  does not find the key, the state is as before. \<^verbatim>\<open>Add\<close> and \<^verbatim>\<open>AddWithTTL\<close> of a key that is
  not contained return; they evict exactly when the capacity is positive and is not
  above the number of keys, the key evicted is then \<open>hd ks\<close>, the oldest key, which is the
  entry at the back of the list (what \<^verbatim>\<open>GetOldest\<close> returns), the callback is called for it
  and for nothing else, and the other keys keep their order in front of the new,
  newest key.
\<close>

theorem lru_order:
  assumes "distinct [A, B, C]"
    and "reaches (NewLRU sz cb0 t0 pe0 h0) s" and "keys s = Some ks"
  shows "(\<exists>s1 s2. Add (Key A) va n1 (NewLRU 2 cb t pe h) = Some (False, s1)
           \<and> Add (Key B) vb n2 s1 = Some (False, s2) \<and> keys s2 = Some [Key A, Key B]
           \<and> (\<exists>s3. Add (Key C) vc n3 s2 = Some (True, s3) \<and> keys s3 = Some [Key B, Key C]
                 \<and> \<not> Contains (Key A) s3 \<and> Contains (Key B) s3 \<and> Contains (Key C) s3
                 \<and> calls s3 = (if cb then [(Key A, va)] else []))
           \<and> (g \<le> n1 + c_ttl (NewLRU 2 cb t pe h) \<longrightarrow>
                (\<exists>s2' s3'. Get (Key A) g s2 = Some (Some va, s2') \<and> keys s2' = Some [Key B, Key A]
                   \<and> Add (Key C) vc n3 s2' = Some (True, s3') \<and> keys s3' = Some [Key A, Key C]
                   \<and> Contains (Key A) s3' \<and> \<not> Contains (Key B) s3' \<and> Contains (Key C) s3'
                   \<and> calls s3' = (if cb then [(Key B, vb)] else []))))
    \<and> (\<exists>r s'. Get k now s = Some (r, s')
           \<and> (r \<noteq> None \<longleftrightarrow> (\<exists>kv. entry k s = Some kv \<and> \<not> expiresAt kv < now))
           \<and> (r \<noteq> None \<longrightarrow>
                 r = map_option val (entry k s)
                 \<and> keys s' = Some (filter (\<lambda>x. x \<noteq> k) ks @ [k])
                 \<and> (\<forall>x. entry x s' = entry x s) \<and> Len s' = Len s \<and> calls s' = calls s
                 \<and> c_size s' = c_size s)
           \<and> (r = None \<longrightarrow> s' = s))
    \<and> (k' \<noteq> NaN \<and> \<not> Contains k' s \<longrightarrow>
          (\<forall>res \<in> {Add k' v n s, AddWithTTL k' v ttl n s}.
             \<exists>ev s'. res = Some (ev, s')
               \<and> (ev \<longleftrightarrow> 0 < c_size s \<and> c_size s \<le> int (length ks))
               \<and> keys s' = Some ((if ev then tl ks else ks) @ [k'])
               \<and> (ev \<longrightarrow> ks \<noteq> [] \<and> \<not> Contains (hd ks) s'
                     \<and> (\<exists>v0. GetOldest s = Some (Some (hd ks, v0), s)
                           \<and> calls s' = calls s @ (if c_onEvicted s then [(hd ks, v0)] else [])))
               \<and> (\<not> ev \<longrightarrow> calls s' = calls s)))"
proof -
  define s0 where "s0 = NewLRU 2 cb t pe h"
  define s1 where "s1 = snd (the (Add (Key A) va n1 s0))"
  define s2 where "s2 = snd (the (Add (Key B) vb n2 s1))"
  define s3 where "s3 = snd (the (Add (Key C) vc n3 s2))"
  define s2' where "s2' = snd (the (Get (Key A) g s2))"
  define s3' where "s3' = snd (the (Add (Key C) vc n3 s2'))"
  have ne: "A \<noteq> B" "A \<noteq> C" "B \<noteq> C" "B \<noteq> A" "C \<noteq> A" "C \<noteq> B" using assms(1) by auto
  have 1: "Add (Key A) va n1 s0 = Some (False, s1)"
    unfolding s1_def s0_def by (simp add: eval_defs)
  have 2: "Add (Key B) vb n2 s1 = Some (False, s2)"
    unfolding s2_def s1_def s0_def using ne by (simp add: eval_defs)
  have k2: "keys s2 = Some [Key A, Key B]"
    unfolding s2_def s1_def s0_def using ne by (simp add: eval_defs keys_eval)
  have 3: "Add (Key C) vc n3 s2 = Some (True, s3)"
    unfolding s3_def s2_def s1_def s0_def using ne by (simp add: eval_defs)
  have k3: "keys s3 = Some [Key B, Key C] \<and> \<not> Contains (Key A) s3 \<and> Contains (Key B) s3
                 \<and> Contains (Key C) s3 \<and> calls s3 = (if cb then [(Key A, va)] else [])"
    unfolding s3_def s2_def s1_def s0_def using ne by (simp add: eval_defs keys_eval)
  have alt: "Get (Key A) g s2 = Some (Some va, s2') \<and> keys s2' = Some [Key B, Key A]
                   \<and> Add (Key C) vc n3 s2' = Some (True, s3') \<and> keys s3' = Some [Key A, Key C]
                   \<and> Contains (Key A) s3' \<and> \<not> Contains (Key B) s3' \<and> Contains (Key C) s3'
                   \<and> calls s3' = (if cb then [(Key B, vb)] else [])"
    if "g \<le> n1 + c_ttl s0"
    using that ne unfolding s3'_def s2'_def s2_def s1_def s0_def
    by (simp add: eval_defs keys_eval)
  have scen: "\<exists>s1 s2. Add (Key A) va n1 (NewLRU 2 cb t pe h) = Some (False, s1)
           \<and> Add (Key B) vb n2 s1 = Some (False, s2) \<and> keys s2 = Some [Key A, Key B]
           \<and> (\<exists>s3. Add (Key C) vc n3 s2 = Some (True, s3) \<and> keys s3 = Some [Key B, Key C]
                 \<and> \<not> Contains (Key A) s3 \<and> Contains (Key B) s3 \<and> Contains (Key C) s3
                 \<and> calls s3 = (if cb then [(Key A, va)] else []))
           \<and> (g \<le> n1 + c_ttl (NewLRU 2 cb t pe h) \<longrightarrow>
                (\<exists>s2' s3'. Get (Key A) g s2 = Some (Some va, s2') \<and> keys s2' = Some [Key B, Key A]
                   \<and> Add (Key C) vc n3 s2' = Some (True, s3') \<and> keys s3' = Some [Key A, Key C]
                   \<and> Contains (Key A) s3' \<and> \<not> Contains (Key B) s3' \<and> Contains (Key C) s3'
                   \<and> calls s3' = (if cb then [(Key B, vb)] else [])))"
    using 1 2 k2 3 k3 alt unfolding s0_def by blast
  from reaches_NewLRU_cinv[OF assms(2)] obtain xs where "cinv s xs" by blast
  then have b: "binv s xs" by (simp add: cinv_def)
  have ad: "\<forall>res \<in> {Add k' v n s, AddWithTTL k' v ttl n s}.
             \<exists>ev s'. res = Some (ev, s')
               \<and> (ev \<longleftrightarrow> 0 < c_size s \<and> c_size s \<le> int (length ks))
               \<and> keys s' = Some ((if ev then tl ks else ks) @ [k'])
               \<and> (ev \<longrightarrow> ks \<noteq> [] \<and> \<not> Contains (hd ks) s'
                     \<and> (\<exists>v0. GetOldest s = Some (Some (hd ks, v0), s)
                           \<and> calls s' = calls s @ (if c_onEvicted s then [(hd ks, v0)] else [])))
               \<and> (\<not> ev \<longrightarrow> calls s' = calls s)"
    if "k' \<noteq> NaN" "\<not> Contains k' s"
    using add_order[OF b assms(3) that, of v "c_ttl s" n] add_order[OF b assms(3) that, of v ttl n]
    by (simp add: Add_def AddWithTTL_def)
  show ?thesis using scen Get_order[OF b assms(3), of k now] ad by blast
qed

theorem lru_order_witness:
  "distinct [1::nat, 2, 3]
    \<and> reaches (NewLRU 2 True 0 0 empty_heap) demo2 \<and> keys demo2 = Some [Key 1, Key 2]
    \<and> Key (3::nat) \<noteq> NaN \<and> \<not> Contains (Key 3) demo2
    \<and> (\<exists>s1 s2. Add (Key (1::nat)) (10::nat) 0 (NewLRU 2 True 0 0 empty_heap) = Some (False, s1)
           \<and> Add (Key 2) 20 1 s1 = Some (False, s2) \<and> keys s2 = Some [Key 1, Key 2]
           \<and> (\<exists>s3. Add (Key 3) 30 3 s2 = Some (True, s3) \<and> keys s3 = Some [Key 2, Key 3]
                 \<and> \<not> Contains (Key 1) s3 \<and> Contains (Key 2) s3 \<and> Contains (Key 3) s3
                 \<and> calls s3 = [(Key 1, 10)])
           \<and> (\<exists>s2' s3'. Get (Key 1) 2 s2 = Some (Some 10, s2') \<and> keys s2' = Some [Key 2, Key 1]
                   \<and> Add (Key 3) 30 3 s2' = Some (True, s3') \<and> keys s3' = Some [Key 1, Key 3]
                   \<and> Contains (Key 1) s3' \<and> \<not> Contains (Key 2) s3' \<and> Contains (Key 3) s3'
                   \<and> calls s3' = [(Key 2, 20)]))
    \<and> (\<exists>s'. Get (Key 1) 2 demo2 = Some (Some 10, s') \<and> keys s' = Some [Key 2, Key 1]
           \<and> Len s' = Len demo2 \<and> calls s' = calls demo2)
    \<and> (\<exists>s'. Get (Key 7) 2 demo2 = Some (None, s') \<and> s' = demo2)
    \<and> (\<exists>s'. Add (Key 3) 30 2 demo2 = Some (True, s') \<and> keys s' = Some [Key 2, Key 3]
           \<and> \<not> Contains (Key 1) s' \<and> GetOldest demo2 = Some (Some (Key 1, 10), demo2)
           \<and> calls s' = calls demo2 @ [(Key 1, 10)])"
proof -
  have d: "distinct [1::nat, 2, 3]" by simp
  have r: "reaches (NewLRU 2 True 0 0 empty_heap) demo2"
    using demo2_reaches by (simp add: demo0_def)
  have l: "(2::int) \<le> 0 + c_ttl (NewLRU 2 True 0 0 (empty_heap :: (nat, nat) heap))"
    by (simp add: NewLRU_fields noEvictionTTL_def)
  have f: "Key (3::nat) \<noteq> NaN" "\<not> Contains (Key 3) demo2" "c_onEvicted demo2" "c_size demo2 = 2"
    "entry (Key 1) demo2 = Some \<lparr>key = Key 1, val = 10, expiresAt = noEvictionTTL\<rparr>"
    "entry (Key 7) demo2 = None"
    by (simp_all add: demo2_def demo1_def demo0_def eval_defs keys_eval entry_def)
  note t = lru_order [OF d r demo2_keys, where va = "10::nat" and ?n1.0 = 0 and cb = True and t = 0
        and pe = 0 and h = empty_heap and vb = 20 and ?n2.0 = 1 and vc = 30 and ?n3.0 = 3 and g = 2
        and k' = "Key 3" and v = 30 and n = 2 and ttl = 5]
  have 1: "\<exists>s1 s2. Add (Key (1::nat)) (10::nat) 0 (NewLRU 2 True 0 0 empty_heap) = Some (False, s1)
           \<and> Add (Key 2) 20 1 s1 = Some (False, s2) \<and> keys s2 = Some [Key 1, Key 2]
           \<and> (\<exists>s3. Add (Key 3) 30 3 s2 = Some (True, s3) \<and> keys s3 = Some [Key 2, Key 3]
                 \<and> \<not> Contains (Key 1) s3 \<and> Contains (Key 2) s3 \<and> Contains (Key 3) s3
                 \<and> calls s3 = [(Key 1, 10)])
           \<and> (\<exists>s2' s3'. Get (Key 1) 2 s2 = Some (Some 10, s2') \<and> keys s2' = Some [Key 2, Key 1]
                   \<and> Add (Key 3) 30 3 s2' = Some (True, s3') \<and> keys s3' = Some [Key 1, Key 3]
                   \<and> Contains (Key 1) s3' \<and> \<not> Contains (Key 2) s3' \<and> Contains (Key 3) s3'
                   \<and> calls s3' = [(Key 2, 20)])"
    using l t [where k = "Key 1" and now = 2] by simp
  have 2: "\<exists>s'. Get (Key 1) 2 demo2 = Some (Some 10, s') \<and> keys s' = Some [Key 2, Key 1]
           \<and> Len s' = Len demo2 \<and> calls s' = calls demo2"
    using t [where k = "Key 1" and now = 2] f by (auto simp: noEvictionTTL_def)
  have 3: "\<exists>s'. Get (Key 7) 2 demo2 = Some (None, s') \<and> s' = demo2"
    using t [where k = "Key 7" and now = 2] f by auto
  have 4: "\<exists>s'. Add (Key 3) 30 2 demo2 = Some (True, s') \<and> keys s' = Some [Key 2, Key 3]
           \<and> \<not> Contains (Key 1) s' \<and> GetOldest demo2 = Some (Some (Key 1, 10), demo2)
           \<and> calls s' = calls demo2 @ [(Key 1, 10)]"
  proof -
    have g: "GetOldest demo2 = Some (Some (Key 1, 10), demo2)"
      by (simp add: demo2_def demo1_def demo0_def eval_defs GetOldest_def)
    show ?thesis using t [where k = "Key 1" and now = 2] f g by auto
  qed
  show ?thesis using d r demo2_keys f(1,2) 1 2 3 4 by blast
qed

section \<open>Refreshing a key\<close>

text \<open>
  C4. In every state a cache reaches, \<^verbatim>\<open>AddWithTTL\<close> on a key that the map finds returns
  false; the map still sends the key to the same element, whose entry now holds the new
  value and the expiry \<open>now + ttl\<close>, whether or not the old entry had expired; that element
  is the front of the list and the newest key of \<^verbatim>\<open>keys\<close>, the other keys keep their
  order and their entries; nothing is evicted, the callback is not called and the length
  is unchanged. \<^verbatim>\<open>Add\<close> is \<^verbatim>\<open>AddWithTTL\<close> with the ttl of the cache.
\<close>

theorem refresh_existing:
  assumes "reaches (NewLRU sz cb t0 pe h) s" and "map_lookup (c_items s) k = Some a"
  shows "\<exists>s' ks. AddWithTTL k v t now s = Some (False, s')
           \<and> Add k v now s = AddWithTTL k v (c_ttl s) now s
           \<and> c_items s' = c_items s
           \<and> entry k s' = Some \<lparr>key = k, val = v, expiresAt = now + t\<rparr>
           \<and> (\<forall>k'. k' \<noteq> k \<longrightarrow> entry k' s' = entry k' s)
           \<and> Front (c_evictList s') s' = Some a
           \<and> keys s = Some ks \<and> keys s' = Some (filter (\<lambda>k'. k' \<noteq> k) ks @ [k])
           \<and> Len s' = Len s \<and> calls s' = calls s \<and> c_size s' = c_size s"
proof -
  from reaches_NewLRU_cinv[OF assms(1)] obtain xs where "cinv s xs" by blast
  then have b: "binv s xs" by (simp add: cinv_def)
  from add_existing[OF b assms(2), of v t now] obtain nx pv where s':
    "add k v t now s = Some (False, s\<lparr>e_next := nx, e_prev := pv,
             e_Value := (e_Value s)(a \<mapsto> \<lparr>key = k, val = v, expiresAt = now + t\<rparr>)\<rparr>)"
    "binv (s\<lparr>e_next := nx, e_prev := pv,
             e_Value := (e_Value s)(a \<mapsto> \<lparr>key = k, val = v, expiresAt = now + t\<rparr>)\<rparr>) (a # remove1 a xs)"
    by blast
  let ?s' = "s\<lparr>e_next := nx, e_prev := pv,
             e_Value := (e_Value s)(a \<mapsto> \<lparr>key = k, val = v, expiresAt = now + t\<rparr>)\<rparr>"
  have a: "a \<in> set xs" "kof s a = k" using binv_items_iff[OF b, of k a] assms(2) by auto
  have d: "distinct xs" by (rule binv_distinct[OF b])
  have kk: "kof ?s' = kof s" using a(2) by (auto simp: kof_def fun_eq_iff)
  have ot: "\<And>k'. k' \<noteq> k \<Longrightarrow> map_lookup (c_items s) k' \<noteq> Some a"
    using binv_items_iff[OF b] a(2) by auto
  have 1: "AddWithTTL k v t now s = Some (False, ?s')" using s'(1) by (simp add: AddWithTTL_def)
  have 2: "Add k v now s = AddWithTTL k v (c_ttl s) now s" by (simp add: Add_def AddWithTTL_def)
  have 3: "entry k ?s' = Some \<lparr>key = k, val = v, expiresAt = now + t\<rparr>"
    using assms(2) by (simp add: entry_def)
  have 4: "\<forall>k'. k' \<noteq> k \<longrightarrow> entry k' ?s' = entry k' s"
    using ot by (auto simp: entry_def split: option.splits)
  have 5: "Front (c_evictList ?s') ?s' = Some a"
    using ring_Front[OF binv_ring[OF s'(2)]] by simp
  have 6: "keys s = Some (map (kof s) (rev xs))" by (rule binv_keys[OF b])
  have "filter (\<lambda>k'. k' \<noteq> k) (map (kof s) (rev xs)) = map (kof s) (filter (\<lambda>b. b \<noteq> a) (rev xs))"
    using binv_remove_key[OF b a(1), of "rev xs"] a(2) by simp
  also have "\<dots> = map (kof s) (rev (remove1 a xs))"
    by (simp add: distinct_remove1_filter[OF d] rev_filter)
  finally have 7: "keys ?s' = Some (filter (\<lambda>k'. k' \<noteq> k) (map (kof s) (rev xs)) @ [k])"
    using binv_keys[OF s'(2)] a(2) unfolding kk by simp
  have "length xs \<noteq> 0" using a(1) by auto
  then have 8: "Len ?s' = Len s" using binv_Len[OF s'(2)] binv_Len[OF b] a(1)
    by (simp add: length_remove1)
  show ?thesis using 1 2 3 4 5 6 7 8 by (intro exI[of _ ?s'] exI[of _ "map (kof s) (rev xs)"]) simp
qed

theorem refresh_existing_witness:
  "reaches (NewLRU 2 True 0 0 empty_heap) demo3 \<and> map_lookup (c_items demo3) (Key 2) = Some 2
    \<and> AddWithTTL (Key 2) 21 5 3 demo3 = Some (False, demo4)
    \<and> entry (Key 2) demo4 = Some \<lparr>key = Key 2, val = 21, expiresAt = 8\<rparr>
    \<and> keys demo3 = Some [Key 2, Key 3] \<and> keys demo4 = Some [Key 3, Key 2]
    \<and> Front (c_evictList demo4) demo4 = Some 2
    \<and> Len demo4 = Len demo3 \<and> calls demo4 = calls demo3"
proof -
  have r: "reaches (NewLRU 2 True 0 0 empty_heap) demo3"
    using demo3_reaches by (simp add: demo0_def)
  have i: "map_lookup (c_items demo3) (Key 2) = Some 2"
    by (simp add: demo3_def demo2_def demo1_def demo0_def eval_defs)
  have e: "AddWithTTL (Key 2) 21 5 3 demo3 = Some (False, demo4)"
    by (simp add: demo4_def demo3_def demo2_def demo1_def demo0_def eval_defs)
  from refresh_existing [OF r i, of 21 5 3] obtain s' ks where
    "AddWithTTL (Key 2) 21 5 3 demo3 = Some (False, s')"
    "entry (Key 2) s' = Some \<lparr>key = Key 2, val = 21, expiresAt = 3 + 5\<rparr>"
    "Front (c_evictList s') s' = Some 2"
    "keys demo3 = Some ks" "keys s' = Some (filter (\<lambda>k'. k' \<noteq> Key 2) ks @ [Key 2])"
    "Len s' = Len demo3" "calls s' = calls demo3" by blast
  then show ?thesis using r i e demo3_keys by auto
qed

section \<open>Expired entries stay until they are reaped\<close>

text \<open>
  C5. For every key that is in the map with an entry whose expiry is before the clock
  reading, \<^verbatim>\<open>Get\<close> returns not-found and leaves the whole state as it was: the key is
  still contained and the length has not changed.
\<close>

theorem get_expired_keeps_entry:
  assumes "entry k s = Some kv" and "expiresAt kv < now"
  shows "\<exists>s'. Get k now s = Some (None, s') \<and> s' = s \<and> Contains k s' \<and> Len s' = Len s
           \<and> entry k s' = Some kv"
proof -
  from assms(1) obtain a where a: "map_lookup (c_items s) k = Some a" "e_Value s a = Some kv"
    by (auto simp: entry_def split: option.splits)
  then have "Get k now s = Some (None, s)" using assms(2) by (simp add: Get_def)
  then show ?thesis using a assms(1) by (simp add: Contains_def)
qed

theorem get_expired_keeps_entry_witness:
  "entry (Key 7) demo5 = Some \<lparr>key = Key 7, val = 70, expiresAt = 10\<rparr>
    \<and> expiresAt \<lparr>key = Key 7, val = 70::nat, expiresAt = 10\<rparr> < 15
    \<and> Get (Key 7) 15 demo5 = Some (None, demo5) \<and> Contains (Key 7) demo5 \<and> Len demo5 = 1"
proof -
  have e: "entry (Key 7) demo5 = Some \<lparr>key = Key 7, val = 70, expiresAt = 10\<rparr>"
    by (simp add: demo5_def demo0_def eval_defs entry_def)
  have x: "expiresAt \<lparr>key = Key 7, val = 70::nat, expiresAt = 10\<rparr> < 15" by simp
  have l: "Len demo5 = 1"
    by (simp add: demo5_def demo0_def eval_defs Len_def List_Len_def)
  show ?thesis using e x l get_expired_keeps_entry [OF e x] by auto
qed

section \<open>Reaping expired entries\<close>

lemma expired_nodes_enumerate:
  "expired_nodes clock i ex as = map snd (filter (\<lambda>(j, a). ex a < clock j) (enumerate i as))"
  by (induction as arbitrary: i) auto

lemma kept_nodes_enumerate:
  "distinct as \<Longrightarrow>
     filter (\<lambda>a. a \<notin> set (expired_nodes clock i ex as)) as
       = map snd (filter (\<lambda>(j, a). \<not> ex a < clock j) (enumerate i as))"
proof (induction as arbitrary: i)
  case Nil
  then show ?case by simp
next
  case (Cons a as)
  have n: "a \<notin> set (expired_nodes clock (Suc i) ex as)"
    using expired_nodes_subset[of clock "Suc i" ex as] Cons.prems by auto
  have "filter (\<lambda>b. b \<noteq> a \<and> b \<notin> set (expired_nodes clock (Suc i) ex as)) as
      = filter (\<lambda>b. b \<notin> set (expired_nodes clock (Suc i) ex as)) as"
    using Cons.prems by (intro filter_cong) auto
  then show ?case using Cons n by simp
qed

lemma map_filter_enumerate:
  assumes "\<And>j a. a \<in> set as \<Longrightarrow> Q j (f a) = P j a"
  shows "map f (map snd (filter (\<lambda>(j, a). P j a) (enumerate i as)))
       = map snd (filter (\<lambda>(j, k). Q j k) (enumerate i (map f as)))"
  using assms by (induction as arbitrary: i) auto

lemma filter_enumerate_const:
  assumes "\<And>j. i \<le> j \<Longrightarrow> j < i + length ks \<Longrightarrow> P j = Q"
  shows "map snd (filter (\<lambda>(j, k). P j k) (enumerate i ks)) = filter Q ks"
  using assms
proof (induction ks arbitrary: i)
  case Nil
  then show ?case by simp
next
  case (Cons k ks)
  have "P i = Q" using Cons.prems[of i] by simp
  moreover have "map snd (filter (\<lambda>(j, k). P j k) (enumerate (Suc i) ks)) = filter Q ks"
    by (rule Cons.IH) (use Cons.prems in auto)
  ultimately show ?case by simp
qed

text \<open>
  C6, amended. In every state that a cache reaches by calls that add only keys equal to
  themselves, with \<open>ks\<close> the keys from oldest to newest, \<^verbatim>\<open>DeleteExpired\<close> returns whatever
  the clock reads. It reads the clock once in every round of its scan, round \<open>i\<close> being the
  one of the key \<open>ks ! i\<close>, and removes exactly the keys whose entry has an expiry before
  the reading of their own round: the keys left are the others, in the order they had,
  with their entries as before, the entries of the removed keys are gone, and the callback,
  when set, was called once for every removed key, in the order of \<open>ks\<close>, with the key and
  the value of its entry. So when every reading is the same instant \<open>now\<close>, the keys removed
  are exactly those expired at \<open>now\<close>; and when the readings lie between the instants \<open>t0\<close>
  and \<open>t1\<close>, every key expired at \<open>t0\<close> is removed and every key removed is expired at \<open>t1\<close>.
\<close>

theorem delete_expired_removes_expired:
  assumes "reaches (NewLRU sz cb t0' pe h) s" and "keys s = Some ks"
  shows "\<exists>s' ks'. DeleteExpired clock s = Some s' \<and> keys s' = Some ks'
           \<and> ks' = map snd (filter (\<lambda>(i, k). \<not> is_expired (clock i) k s) (enumerate 0 ks))
           \<and> (\<forall>k. entry k s' = (if k \<in> set ks' then entry k s else None))
           \<and> calls s' = calls s @
                 (if c_onEvicted s
                  then evicted_args s
                         (map snd (filter (\<lambda>(i, k). is_expired (clock i) k s) (enumerate 0 ks)))
                  else [])
           \<and> ((\<forall>i < length ks. clock i = now) \<longrightarrow>
                 ks' = filter (\<lambda>k. \<not> is_expired now k s) ks
                 \<and> (\<forall>k. entry k s' = (if is_expired now k s then None else entry k s))
                 \<and> calls s' = calls s @
                      (if c_onEvicted s then evicted_args s (filter (\<lambda>k. is_expired now k s) ks) else []))
           \<and> ((\<forall>i < length ks. t0 \<le> clock i \<and> clock i \<le> t1) \<longrightarrow>
                 (\<forall>k \<in> set ks. (is_expired t0 k s \<longrightarrow> k \<notin> set ks')
                    \<and> (k \<notin> set ks' \<longrightarrow> is_expired t1 k s)))"
proof -
  from reaches_NewLRU_cinv[OF assms(1)] obtain xs where "cinv s xs" by blast
  then have b: "binv s xs" by (simp add: cinv_def)
  have ks: "ks = map (kof s) (rev xs)" using binv_keys[OF b] assms(2) by simp
  have d: "distinct xs" by (rule binv_distinct[OF b])
  have dk: "distinct ks" unfolding ks using binv_distinct_keys[OF b] by (simp add: rev_map[symmetric])
  let ?E = "expired_nodes clock 0 (eof s) (rev xs)"
  let ?xs' = "filter (\<lambda>a. a \<notin> set ?E) xs"
  let ?gone = "map snd (filter (\<lambda>(i, k). is_expired (clock i) k s) (enumerate 0 ks))"
  let ?ks' = "map snd (filter (\<lambda>(i, k). \<not> is_expired (clock i) k s) (enumerate 0 ks))"
  from deleteExpired_spec[OF b, of clock] obtain s' where s':
    "DeleteExpired clock s = Some s'" "binv s' ?xs'" "frame s s'"
    "calls s' = calls s @ (if c_onEvicted s then map (kvof s) ?E else [])"
    unfolding DeleteExpired_def by blast
  have kk: "kof s' = kof s" and ev: "e_Value s' = e_Value s"
    using frame_kof[OF s'(3)] s'(3) by (simp_all add: frame_def)
  have ex: "\<And>j a. a \<in> set (rev xs) \<Longrightarrow> is_expired (clock j) (kof s a) s = (eof s a < clock j)"
    by (simp add: binv_is_expired[OF b])
  have g: "?gone = map (kof s) ?E"
    unfolding ks expired_nodes_enumerate
    by (rule map_filter_enumerate[symmetric]) (rule ex)
  have "rev ?xs' = filter (\<lambda>a. a \<notin> set ?E) (rev xs)" by (simp add: rev_filter)
  also have "\<dots> = map snd (filter (\<lambda>(j, a). \<not> eof s a < clock j) (enumerate 0 (rev xs)))"
    by (rule kept_nodes_enumerate) (use d in simp)
  finally have "map (kof s) (rev ?xs') = ?ks'"
    unfolding ks using map_filter_enumerate[of "rev xs" "\<lambda>j k. \<not> is_expired (clock j) k s" "kof s"
        "\<lambda>j a. \<not> eof s a < clock j" 0] ex by simp
  then have 1: "keys s' = Some ?ks'" using binv_keys[OF s'(2)] unfolding kk by simp
  have sk: "set ?ks' = kof s ` set ?xs'"
    using \<open>map (kof s) (rev ?xs') = ?ks'\<close> by (metis set_map set_rev)
  have 2: "\<forall>k. entry k s' = (if k \<in> set ?ks' then entry k s else None)"
    unfolding sk using binv_entry_sub[OF b s'(2,3)] by simp
  have 3: "evicted_args s ?gone = map (kvof s) ?E"
    unfolding g by (rule binv_evicted_args[OF b]) (use expired_nodes_subset[of clock 0 "eof s" "rev xs"] in auto)
  have mem: "k \<in> set ?ks' \<longleftrightarrow> (\<exists>i < length ks. ks ! i = k \<and> \<not> is_expired (clock i) k s)" for k
    by (auto simp: in_set_enumerate_eq image_iff)
  have idx: "\<And>k. k \<in> set ks \<Longrightarrow> \<exists>!i. i < length ks \<and> ks ! i = k"
    using dk by (metis distinct_Ex1)
  have 4: "ks' = filter (\<lambda>k. \<not> is_expired now k s) ks
                 \<and> (\<forall>k. entry k s' = (if is_expired now k s then None else entry k s))
                 \<and> calls s' = calls s @
                      (if c_onEvicted s then evicted_args s (filter (\<lambda>k. is_expired now k s) ks) else [])"
    if c: "\<forall>i < length ks. clock i = now" and e: "ks' = ?ks'" for ks'
  proof -
    have a: "?ks' = filter (\<lambda>k. \<not> is_expired now k s) ks"
      by (rule filter_enumerate_const) (use c in auto)
    have g': "?gone = filter (\<lambda>k. is_expired now k s) ks"
      by (rule filter_enumerate_const) (use c in auto)
    have "entry k s' = (if is_expired now k s then None else entry k s)" for k
    proof (cases "k \<in> set ks")
      case True
      then show ?thesis using 2 unfolding a by simp
    next
      case False
      then have "entry k s = None" using binv_entry_None[OF b, of k] unfolding ks by simp
      then show ?thesis using 2 False unfolding a by (simp add: is_expired_def)
    qed
    then show ?thesis using a e s'(4) 3 g' by simp
  qed
  have 5: "\<forall>k \<in> set ks. (is_expired t0 k s \<longrightarrow> k \<notin> set ?ks') \<and> (k \<notin> set ?ks' \<longrightarrow> is_expired t1 k s)"
    if c: "\<forall>i < length ks. t0 \<le> clock i \<and> clock i \<le> t1"
  proof (intro ballI conjI impI)
    fix k assume k: "k \<in> set ks" and x: "is_expired t0 k s"
    show "k \<notin> set ?ks'"
    proof
      assume "k \<in> set ?ks'"
      then obtain i where i: "i < length ks" "\<not> is_expired (clock i) k s" using mem by blast
      then show False using x c by (auto simp: is_expired_def split: option.splits)
    qed
  next
    fix k assume k: "k \<in> set ks" and x: "k \<notin> set ?ks'"
    from k obtain i where i: "i < length ks" "ks ! i = k" by (auto simp: in_set_conv_nth)
    then have "is_expired (clock i) k s" using x mem by blast
    then show "is_expired t1 k s" using c i(1) by (auto simp: is_expired_def split: option.splits)
  qed
  show ?thesis
    using s'(1,4) 1 2 3 4[OF _ refl] 5 by (intro exI[of _ s'] exI[of _ ?ks']) simp
qed

lemmas eval_defs2 = step.simps DeleteExpired_def deleteExpired_def keys_def keys_loop_Some Prev_def
  entry_def is_expired_def evicted_args_def map_filter_simps

lemma demo6_reaches: "reaches (NewLRU 0 True 0 0 empty_heap) demo6"
proof -
  let ?s0 = "NewLRU 0 True 0 0 empty_heap :: (nat, nat) state"
  let ?s1 = "run_calls [Call_AddWithTTL (Key 1) 10 5 0] ?s0"
  let ?s2 = "run_calls [Call_AddWithTTL (Key 2) 20 50 1] ?s1"
  have 1: "step (Call_AddWithTTL (Key 1) 10 5 0) ?s0 = Some (Ret_bool False, ?s1)"
    by (simp add: eval_defs)
  have 2: "step (Call_AddWithTTL (Key 2) 20 50 1) ?s1 = Some (Ret_bool False, ?s2)"
    by (simp add: eval_defs)
  have 3: "step (Call_AddWithTTL (Key 3) 30 5 2) ?s2 = Some (Ret_bool False, demo6)"
    by (simp add: demo6_def eval_defs)
  have "reaches ?s0 ?s1" by (rule reaches.call[OF reaches.start _ _ 1]) simp_all
  then have "reaches ?s0 ?s2" by (rule reaches.call[OF _ _ _ 2]) simp_all
  then show ?thesis by (rule reaches.call[OF _ _ _ 3]) simp_all
qed

lemma demo6_keys: "keys demo6 = Some [Key 1, Key 2, Key 3]"
  by (simp add: demo6_def eval_defs eval_defs2)

lemma demo6_expiry:
  "is_expired now (Key 1) demo6 = (5 < now)"
  "is_expired now (Key 2) demo6 = (51 < now)"
  "is_expired now (Key 3) demo6 = (7 < now)"
  "is_expired now (Key (Suc 0)) demo6 = (5 < now)"
  by (simp_all add: demo6_def eval_defs eval_defs2)

text \<open>
  C6 as stated fails when the clock moves during the scan. With the keys 1, 2 and 3
  expiring at 5, 51 and 7 and a clock that reads 4 in the first two rounds and 20 in the
  third, \<^verbatim>\<open>DeleteExpired\<close> removes key 3 only: key 1 stays although it has expired by the
  last reading, and key 3 goes although it had not expired at the first. As key 1
  expires before key 3, at no single instant are the keys left exactly those that have
  not expired. It also fails for a key that is not equal to itself: the scan does not
  find the key in the map and panics.
\<close>

theorem delete_expired_reads_clock_per_key:
  "keys demo6 = Some [Key 1, Key 2, Key 3]
    \<and> entry (Key 1) demo6 = Some \<lparr>key = Key 1, val = 10, expiresAt = 5\<rparr>
    \<and> entry (Key 2) demo6 = Some \<lparr>key = Key 2, val = 20, expiresAt = 51\<rparr>
    \<and> entry (Key 3) demo6 = Some \<lparr>key = Key 3, val = 30, expiresAt = 7\<rparr>
    \<and> demo6_clock 0 = 4 \<and> demo6_clock 1 = 4 \<and> demo6_clock 2 = 20
    \<and> DeleteExpired demo6_clock demo6 = Some demo6''
    \<and> keys demo6'' = Some [Key 1, Key 2] \<and> calls demo6'' = [(Key 3, 30)]
    \<and> is_expired 20 (Key 1) demo6 \<and> Contains (Key 1) demo6''
    \<and> \<not> is_expired 4 (Key 3) demo6 \<and> \<not> Contains (Key 3) demo6''
    \<and> keys nan_run1 = Some [NaN] \<and> DeleteExpired demo6_clock nan_run1 = None"
proof -
  have 1: "DeleteExpired demo6_clock demo6 = Some demo6''"
    "keys demo6'' = Some [Key 1, Key 2] \<and> calls demo6'' = [(Key 3, 30)]"
    "Contains (Key 1) demo6'' \<and> \<not> Contains (Key 3) demo6''"
    by (simp_all add: demo6''_def demo6_def demo6_clock_def eval_defs eval_defs2 Contains_def)
  have 2: "entry (Key 1) demo6 = Some \<lparr>key = Key 1, val = 10, expiresAt = 5\<rparr>"
    "entry (Key 2) demo6 = Some \<lparr>key = Key 2, val = 20, expiresAt = 51\<rparr>"
    "entry (Key 3) demo6 = Some \<lparr>key = Key 3, val = 30, expiresAt = 7\<rparr>"
    by (simp_all add: demo6_def eval_defs eval_defs2)
  have 3: "keys nan_run1 = Some [NaN] \<and> DeleteExpired demo6_clock nan_run1 = None"
    by (simp add: nan_defs eval_defs eval_defs2)
  show ?thesis using demo6_keys 1 2 3 by (simp add: demo6_expiry demo6_clock_def)
qed

theorem delete_expired_removes_expired_witness:
  "reaches (NewLRU 0 True 0 0 empty_heap) demo6 \<and> keys demo6 = Some [Key 1, Key 2, Key 3]
    \<and> DeleteExpired (\<lambda>_. 20) demo6 = Some demo6'
    \<and> keys demo6' = Some [Key 2] \<and> calls demo6' = [(Key 1, 10), (Key 3, 30)]
    \<and> DeleteExpired demo6_clock demo6 = Some demo6''
    \<and> keys demo6'' = Some [Key 1, Key 2] \<and> calls demo6'' = [(Key 3, 30)]
    \<and> entry (Key 3) demo6'' = None
    \<and> entry (Key 1) demo6'' = Some \<lparr>key = Key 1, val = 10, expiresAt = 5\<rparr>"
proof -
  have f: "calls demo6 = []" "c_onEvicted demo6"
    "entry (Key 1) demo6 = Some \<lparr>key = Key 1, val = 10, expiresAt = 5\<rparr>"
    "evicted_args demo6 [Key 1, Key 3] = [(Key 1, 10), (Key 3, 30)]"
    "evicted_args demo6 [Key 3] = [(Key 3, 30)]"
    by (simp_all add: demo6_def eval_defs eval_defs2)
  have e: "DeleteExpired (\<lambda>_. 20) demo6 = Some demo6'"
    "DeleteExpired demo6_clock demo6 = Some demo6''"
    by (simp_all add: demo6'_def demo6''_def demo6_def demo6_clock_def eval_defs eval_defs2)
  have en: "enumerate 0 [Key (1::nat), Key 2, Key 3] = [(0, Key 1), (1, Key 2), (2, Key 3)]"
    by (simp add: enumerate_eq_zip upt_rec)
  from delete_expired_removes_expired [OF demo6_reaches demo6_keys,
      where clock = "\<lambda>_. 20" and now = 20 and ?t0.0 = 20 and ?t1.0 = 20] e(1) f
  have a: "keys demo6' = Some [Key 2] \<and> calls demo6' = [(Key 1, 10), (Key 3, 30)]"
    by (auto simp: demo6_expiry en)
  from delete_expired_removes_expired [OF demo6_reaches demo6_keys,
      where clock = demo6_clock and now = 4 and ?t0.0 = 4 and ?t1.0 = 20] e(2) f
  have b: "keys demo6'' = Some [Key 1, Key 2] \<and> calls demo6'' = [(Key 3, 30)]
    \<and> entry (Key 3) demo6'' = None
    \<and> entry (Key 1) demo6'' = Some \<lparr>key = Key 1, val = 10, expiresAt = 5\<rparr>"
    by (auto simp: demo6_expiry en demo6_clock_def)
  show ?thesis using demo6_reaches demo6_keys e a b by simp
qed

section \<open>Resizing\<close>

text \<open>
  C7. \<^verbatim>\<open>Resize\<close> with a size that is not positive returns 0 and leaves the state as it
  was. In every state a cache reaches, with \<open>ks\<close> the keys from oldest to newest,
  \<^verbatim>\<open>Resize\<close> with a positive size \<open>n\<close> returns \<open>max (length ks - n) 0\<close> and stores \<open>n\<close> as
  the capacity; that many keys are gone, the oldest ones: after \<open>j\<close> rounds of its loop
  the keys are \<open>drop j ks\<close>, so every round removes the key that is the oldest then; the
  keys left keep their order and their entries, and the callback, when set, was called
  once for every evicted key, oldest first.
\<close>

theorem resize_evicts_oldest:
  assumes "reaches (NewLRU sz cb t0 pe h) s" and "keys s = Some ks"
  shows "(n \<le> 0 \<longrightarrow> Resize n s = Some (0, s))
    \<and> (0 < n \<longrightarrow> (\<exists>s'. Resize n s = Some (max (int (length ks) - n) 0, s')
           \<and> c_size s' = n
           \<and> keys s' = Some (drop (length ks - nat n) ks)
           \<and> Len s' = Len s - max (int (length ks) - n) 0
           \<and> (\<forall>k. entry k s' = (if k \<in> set (drop (length ks - nat n) ks) then entry k s else None))
           \<and> calls s' = calls s @
                 (if c_onEvicted s then evicted_args s (take (length ks - nat n) ks) else [])
           \<and> (\<forall>j \<le> length ks - nat n. \<exists>sj. removeOldest_times j s = Some sj
                  \<and> keys sj = Some (drop j ks))))"
proof (intro conjI impI)
  assume "n \<le> 0"
  then show "Resize n s = Some (0, s)" by (simp add: Resize_def)
next
  assume n: "0 < n"
  from reaches_NewLRU_cinv[OF assms(1)] obtain xs where "cinv s xs" by blast
  then have b: "binv s xs" by (simp add: cinv_def)
  have ks: "ks = map (kof s) (rev xs)" using binv_keys[OF b] assms(2) by simp
  from Resize_spec[OF b n] obtain s' where s':
    "Resize n s = Some (max (int (length xs) - n) 0, s'\<lparr>c_size := n\<rparr>)"
    "binv (s'\<lparr>c_size := n\<rparr>) (take (nat n) xs)" "frame s s'"
    "calls s' = calls s @ (if c_onEvicted s then map (kvof s) (rev (drop (nat n) xs)) else [])" by blast
  let ?s' = "s'\<lparr>c_size := n\<rparr>"
  have kk: "kof ?s' = kof s" using frame_kof[OF s'(3)] by (simp add: kof_def fun_eq_iff)
  have fr: "frame s (?s'\<lparr>c_size := c_size s\<rparr>)" using s'(3) by (simp add: frame_def)
  have dr: "drop (length ks - nat n) ks = map (kof s) (rev (take (nat n) xs))"
    unfolding ks by (simp add: rev_take drop_map)
  have tk: "take (length ks - nat n) ks = map (kof s) (rev (drop (nat n) xs))"
    unfolding ks by (simp add: rev_drop take_map)
  have 1: "keys ?s' = Some (drop (length ks - nat n) ks)"
    using binv_keys[OF s'(2)] unfolding kk dr by simp
  have 2: "Len ?s' = Len s - max (int (length ks) - n) 0"
    using binv_Len[OF s'(2)] binv_Len[OF b] n unfolding ks by (auto simp: max_def min_def)
  have e: "entry k ?s' = entry k s'" for k by (simp add: entry_def split: option.splits)
  have b2: "binv s' (take (nat n) xs)" using s'(2) by (simp add: binv_def is_ring_def)
  have 3: "\<forall>k. entry k ?s' = (if k \<in> set (drop (length ks - nat n) ks) then entry k s else None)"
    unfolding e dr using binv_entry_sub[OF b b2 s'(3) set_take_subset] by simp
  have 4: "evicted_args s (take (length ks - nat n) ks) = map (kvof s) (rev (drop (nat n) xs))"
    unfolding tk by (rule binv_evicted_args[OF b]) (auto dest: in_set_dropD)
  have 5: "\<exists>sj. removeOldest_times j s = Some sj \<and> keys sj = Some (drop j ks)" for j
  proof -
    from removeOldest_times_frame[OF b, of j] obtain sj where sj:
      "removeOldest_times j s = Some sj" "binv sj (take (length xs - j) xs)" "frame s sj" by blast
    have "keys sj = Some (map (kof s) (rev (take (length xs - j) xs)))"
      using binv_keys[OF sj(2)] frame_kof[OF sj(3)] by simp
    also have "map (kof s) (rev (take (length xs - j) xs)) = drop j ks"
      unfolding ks by (cases "j \<le> length xs") (simp_all add: rev_take drop_map)
    finally show ?thesis using sj(1) by blast
  qed
  show "\<exists>s'. Resize n s = Some (max (int (length ks) - n) 0, s')
           \<and> c_size s' = n
           \<and> keys s' = Some (drop (length ks - nat n) ks)
           \<and> Len s' = Len s - max (int (length ks) - n) 0
           \<and> (\<forall>k. entry k s' = (if k \<in> set (drop (length ks - nat n) ks) then entry k s else None))
           \<and> calls s' = calls s @
                 (if c_onEvicted s then evicted_args s (take (length ks - nat n) ks) else [])
           \<and> (\<forall>j \<le> length ks - nat n. \<exists>sj. removeOldest_times j s = Some sj
                  \<and> keys sj = Some (drop j ks))"
    using s'(1,4) 1 2 3 4 5 unfolding ks by (intro exI[of _ ?s']) simp
qed

theorem resize_evicts_oldest_witness:
  "reaches (NewLRU 0 True 0 0 empty_heap) demo6 \<and> keys demo6 = Some [Key 1, Key 2, Key 3]
    \<and> Resize 0 demo6 = Some (0, demo6)
    \<and> Resize 1 demo6 = Some (2, demo7) \<and> c_size demo7 = 1 \<and> keys demo7 = Some [Key 3]
    \<and> calls demo7 = [(Key 1, 10), (Key 2, 20)]"
proof -
  have e: "Resize 1 demo6 = Some (2, demo7)" "calls demo6 = []" "c_onEvicted demo6"
    "evicted_args demo6 [Key 1, Key 2] = [(Key 1, 10), (Key 2, 20)]"
    by (simp_all add: demo7_def demo6_def eval_defs eval_defs2 Resize_def List_Len_def
        eval_nat_numeral)
  from resize_evicts_oldest [OF demo6_reaches demo6_keys, of 0]
  have z: "Resize 0 demo6 = Some (0, demo6)" by simp
  from resize_evicts_oldest [OF demo6_reaches demo6_keys, of 1] e
  have "c_size demo7 = 1 \<and> keys demo7 = Some [Key 3] \<and> calls demo7 = [(Key 1, 10), (Key 2, 20)]"
    by (auto simp: eval_nat_numeral)
  then show ?thesis using demo6_reaches demo6_keys e(1) z by simp
qed

section \<open>The eviction callback\<close>

text \<open>
  C8 as stated fails for a key that is not equal to itself. \<^verbatim>\<open>RemoveOldest\<close> removes the
  element of such a key and calls the callback for it; the entry stays in the map, so a
  later \<^verbatim>\<open>Purge\<close>, on a cache whose list is empty, calls the callback for it again: two
  calls for one entry that left, the second during a call in which nothing leaves.
\<close>

theorem callback_twice_for_NaN:
  "calls nan_run1 = [] \<and> Len nan_run1 = 1
    \<and> step Call_RemoveOldest nan_run1 = Some (Ret_entry (Some (NaN, 1)), nan_run2)
    \<and> calls nan_run2 = [(NaN, 1)] \<and> Len nan_run2 = 0 \<and> keys nan_run2 = Some []
    \<and> admissible (Call_Purge [(NaN, 1)]) nan_run2
    \<and> step (Call_Purge [(NaN, 1)]) nan_run2 = Some (Ret_unit, nan_run3)
    \<and> Len nan_run3 = 0 \<and> calls nan_run3 = [(NaN, 1), (NaN, 1)]
    \<and> calls nan_run3 \<noteq> calls nan_run2"
  by (simp add: nan_defs eval_defs Init_def)

text \<open>
  C8, amended. In every state that a cache reaches by calls that add only keys equal to
  themselves, every call of a public method that adds no other key returns (for \<^verbatim>\<open>Purge\<close>
  whatever the order of its range, for \<^verbatim>\<open>DeleteExpired\<close>, which is also what a tick of the
  sweeper runs, whatever the clock reads). With \<open>gone\<close> the elements that are in the list
  before the call and not after it, the calls of the callback during the call are, when
  the callback is set, one call for each element of \<open>gone\<close>, with the key and the value
  its entry held before the call, and no other call; the keys of these calls are the keys
  that left the map. When no element leaves, or the callback is not set, the callback is
  not called.
\<close>

theorem callback_once_per_eviction:
  assumes "reaches (NewLRU sz cb t0 pe h) s" and "admissible c s" and "\<not> adds_NaN c"
  shows "\<exists>r s' es es' gone.
           step c s = Some (r, s')
           \<and> elements (c_evictList s) s = Some es \<and> elements (c_evictList s') s' = Some es'
           \<and> distinct gone \<and> set gone = set es - set es'
           \<and> list_all (\<lambda>a. e_Value s a \<noteq> None) gone
           \<and> calls s' = calls s @
                (if c_onEvicted s
                 then map (\<lambda>a. (key (the (e_Value s a)), val (the (e_Value s a)))) gone else [])
           \<and> set (map (\<lambda>a. key (the (e_Value s a))) gone)
                = fst ` set (c_items s) - fst ` set (c_items s')
           \<and> (gone = [] \<or> \<not> c_onEvicted s) = (calls s' = calls s)"
proof -
  from reaches_NewLRU_cinv[OF assms(1)] obtain xs where c: "cinv s xs" by blast
  then have b: "binv s xs" by (simp add: cinv_def)
  from transition_step[OF c assms(2,3)] obtain r s' xs' rem where st:
    "step c s = Some (r, s')" "transition s xs s' xs' rem" by blast
  have b': "binv s' xs'" and l: "c_evictList s' = c_evictList s" and d: "distinct rem"
    and sr: "set rem = set xs - set xs'"
    and cs: "calls s' = calls s @ (if c_onEvicted s then map (kvof s) rem else [])"
    using st(2) by (auto simp: transition_def)
  have kv: "kvof s = (\<lambda>a. (key (the (e_Value s a)), val (the (e_Value s a))))"
    by (auto simp: kvof_def kof_def vof_def)
  have 1: "elements (c_evictList s) s = Some xs" by (rule ring_elements[OF binv_ring[OF b]])
  have 2: "elements (c_evictList s') s' = Some xs'" by (rule ring_elements[OF binv_ring[OF b']])
  have 3: "list_all (\<lambda>a. e_Value s a \<noteq> None) rem"
    using sr binv_Value[OF b] by (fastforce simp: list_all_iff)
  have 4: "set (map (\<lambda>a. key (the (e_Value s a))) rem) = fst ` set (c_items s) - fst ` set (c_items s')"
    using transition_dom_diff[OF b st(2)] by (simp add: kof_def[abs_def])
  have 5: "(rem = [] \<or> \<not> c_onEvicted s) = (calls s' = calls s)" using cs by auto
  show ?thesis using st(1) 1 2 d sr 3 cs 4 5 unfolding kv by blast
qed

lemmas eval_defs3 = Purge_def Remove_def elements_def elements_loop_Some Next_def Front_def

theorem callback_once_per_eviction_witness:
  "reaches (NewLRU 2 True 0 0 empty_heap) demo3
    \<and> admissible (Call_Purge [(Key 3, 3), (Key 2, 2)]) demo3
    \<and> \<not> adds_NaN (Call_Purge [(Key 3, 3), (Key (2::nat), 2)] :: (nat, nat) call)
    \<and> step (Call_Purge [(Key 3, 3), (Key 2, 2)]) demo3 = Some (Ret_unit, demo8)
    \<and> elements (c_evictList demo3) demo3 = Some [3, 2]
    \<and> elements (c_evictList demo8) demo8 = Some []
    \<and> calls demo3 = [(Key 1, 10)] \<and> calls demo8 = [(Key 1, 10), (Key 3, 30), (Key 2, 20)]
    \<and> step (Call_Remove (Key 9)) demo3 = Some (Ret_bool False, demo8') \<and> calls demo8' = calls demo3
    \<and> (\<exists>r s' es es' gone.
           step (Call_Purge [(Key 3, 3), (Key 2, 2)]) demo3 = Some (r, s')
           \<and> elements (c_evictList demo3) demo3 = Some es \<and> elements (c_evictList s') s' = Some es'
           \<and> distinct gone \<and> set gone = set es - set es'
           \<and> list_all (\<lambda>a. e_Value demo3 a \<noteq> None) gone
           \<and> calls s' = calls demo3 @
                (if c_onEvicted demo3
                 then map (\<lambda>a. (key (the (e_Value demo3 a)), val (the (e_Value demo3 a)))) gone else [])
           \<and> set (map (\<lambda>a. key (the (e_Value demo3 a))) gone)
                = fst ` set (c_items demo3) - fst ` set (c_items s')
           \<and> (gone = [] \<or> \<not> c_onEvicted demo3) = (calls s' = calls demo3))"
proof -
  have r: "reaches (NewLRU 2 True 0 0 empty_heap) demo3"
    using demo3_reaches by (simp add: demo0_def)
  have a: "admissible (Call_Purge [(Key 3, 3), (Key 2, 2)]) demo3"
    by (simp add: demo3_def demo2_def demo1_def demo0_def eval_defs eval_nat_numeral add_mset_commute)
  have n: "\<not> adds_NaN (Call_Purge [(Key 3, 3), (Key (2::nat), 2)] :: (nat, nat) call)" by simp
  have e: "step (Call_Purge [(Key 3, 3), (Key 2, 2)]) demo3 = Some (Ret_unit, demo8)"
    "elements (c_evictList demo3) demo3 = Some [3, 2]"
    "elements (c_evictList demo8) demo8 = Some []"
    "calls demo3 = [(Key 1, 10)]" "calls demo8 = [(Key 1, 10), (Key 3, 30), (Key 2, 20)]"
    "step (Call_Remove (Key 9)) demo3 = Some (Ret_bool False, demo8')" "calls demo8' = calls demo3"
    by (simp_all add: demo8_def demo8'_def demo3_def demo2_def demo1_def demo0_def eval_defs eval_defs3)
  show ?thesis using r a n e callback_once_per_eviction [OF r a n] by simp
qed

section \<open>A ttl that is not positive\<close>





end
